theory Spec2Isabelle
  imports Complex_Main
begin

section \<open>The file system seen by TempKlean\<close>

text \<open>
  TempKlean.py talks to the operating system through \<^verbatim>\<open>os\<close>, \<^verbatim>\<open>pathlib\<close> and
  \<^verbatim>\<open>shutil\<close>. Every OS-level exception these calls raise is a subclass of
  \<^verbatim>\<open>OSError\<close> (of which \<^verbatim>\<open>IOError\<close> is an alias), so the handlers
  \<^verbatim>\<open>except (OSError, IOError)\<close> and \<^verbatim>\<open>except (OSError, IOError, PermissionError)\<close>
  catch each value of \<open>os_error\<close>.
\<close>

datatype os_error = FileNotFoundError | PermissionError | NotADirectoryError | OSError

text \<open>
  What removal does to a regular file: \<open>Removable\<close> files are unlinked at once;
  \<open>ReadOnly\<close> files refuse \<^verbatim>\<open>unlink\<close> until \<^verbatim>\<open>os.chmod(path, stat.S_IWRITE)\<close>
  has cleared the read-only bit; \<open>Locked\<close> files (in use, or protected by an access
  control list) refuse it whatever the mode bits are.
\<close>

datatype access = Removable | ReadOnly | Locked

text \<open>
  A directory entry is a regular file with its byte size, a directory with the flag
  "can be listed" and its named children in listing order, or a dangling entry: a name
  the listing returns for which \<^verbatim>\<open>stat\<close> fails (a symbolic link whose target is
  missing), so that it is neither a file nor a directory and does not exist for
  \<^verbatim>\<open>os.path.exists\<close>.
\<close>

datatype node =
    File nat access
  | Dir bool "(string \<times> node) list"
  | Dangling

text \<open>The file system maps the path of a target to the tree found there.\<close>

type_synonym filesystem = "string \<Rightarrow> node option"

fun is_file :: "node \<Rightarrow> bool" where
  "is_file (File n a) = True"
| "is_file (Dir l cs) = False"
| "is_file Dangling = False"

fun is_dir :: "node \<Rightarrow> bool" where
  "is_dir (File n a) = False"
| "is_dir (Dir l cs) = True"
| "is_dir Dangling = False"

fun node_exists :: "node \<Rightarrow> bool" where
  "node_exists (File n a) = True"
| "node_exists (Dir l cs) = True"
| "node_exists Dangling = False"

text \<open>\<^verbatim>\<open>os.path.getsize\<close>; a directory has no content bytes of its own.\<close>

fun node_getsize :: "node \<Rightarrow> os_error + nat" where
  "node_getsize (File n a) = Inr n"
| "node_getsize (Dir l cs) = Inr 0"
| "node_getsize Dangling = Inl FileNotFoundError"

definition os_path_exists :: "filesystem \<Rightarrow> string \<Rightarrow> bool" where
  "os_path_exists fs path = (case fs path of None \<Rightarrow> False | Some n \<Rightarrow> node_exists n)"

subsection \<open>\<^verbatim>\<open>os.walk\<close>\<close>

text \<open>
  The answers the operating system gives for one name of \<^verbatim>\<open>filenames\<close> when
  the loop body looks it up: the result of \<^verbatim>\<open>os.path.exists(filepath)\<close> and the result
  of \<^verbatim>\<open>os.path.getsize(filepath)\<close>. They are separate calls, so a file deleted by
  another process between them has \<open>lk_exists = True\<close> and a failing \<open>lk_getsize\<close>.
\<close>

record lookup =
  lk_exists :: bool
  lk_getsize :: "os_error + nat"

definition lookup_of :: "node \<Rightarrow> lookup" where
  "lookup_of n = \<lparr>lk_exists = node_exists n, lk_getsize = node_getsize n\<rparr>"

text \<open>One \<^verbatim>\<open>(dirpath, dirnames, filenames)\<close> triple; each file name comes with its lookup.\<close>

type_synonym walk_item = "string list \<times> string list \<times> (string \<times> lookup) list"

text \<open>A Python generator: it is exhausted, yields a value and goes on, or raises.\<close>

datatype 'a gen = Done | Yield 'a "'a gen" | Raise os_error

fun gen_of :: "'a list \<Rightarrow> 'a gen \<Rightarrow> 'a gen" where
  "gen_of [] g = g"
| "gen_of (x # xs) g = Yield x (gen_of xs g)"

text \<open>
  \<^verbatim>\<open>os.walk(top)\<close> with its defaults (top-down, \<^verbatim>\<open>onerror=None\<close>, links not
  followed): a directory that cannot be listed, and a top that is not a directory, make
  \<^verbatim>\<open>scandir\<close> fail; the error is swallowed and nothing is yielded for it. Entries
  that are not directories go to \<^verbatim>\<open>filenames\<close>.
\<close>

fun os_walk :: "string list \<Rightarrow> node \<Rightarrow> walk_item list" where
  "os_walk dirpath (Dir True cs) =
     (dirpath, map fst (filter (\<lambda>(name, c). is_dir c) cs),
           map (\<lambda>(name, c). (name, lookup_of c)) (filter (\<lambda>(name, c). \<not> is_dir c) cs))
     # concat (map (\<lambda>(name, c). if is_dir c then os_walk (dirpath @ [name]) c else []) cs)"
| "os_walk dirpath (Dir False cs) = []"
| "os_walk dirpath (File n a) = []"
| "os_walk dirpath Dangling = []"

subsection \<open>\<^verbatim>\<open>get_folder_size\<close>\<close>

text \<open>
  Lines 37 to 43: the loop over \<^verbatim>\<open>filenames\<close>. A name that does not exist is skipped;
  an \<^verbatim>\<open>OSError\<close> of \<^verbatim>\<open>getsize\<close> is caught and the loop continues with the total
  unchanged.
\<close>

fun add_file_sizes :: "nat \<Rightarrow> (string \<times> lookup) list \<Rightarrow> nat" where
  "add_file_sizes total_size [] = total_size"
| "add_file_sizes total_size ((filename, lk) # rest) =
     (if lk_exists lk then
        (case lk_getsize lk of
           Inr n \<Rightarrow> add_file_sizes (total_size + n) rest
         | Inl e \<Rightarrow> add_file_sizes total_size rest)
      else add_file_sizes total_size rest)"

text \<open>
  Lines 35 to 45: the loop over the generator, inside \<^verbatim>\<open>try\<close>. When the generator
  raises, \<^verbatim>\<open>except (OSError, IOError): pass\<close> leaves the loop with the total so far.
\<close>

fun walk_loop :: "nat \<Rightarrow> walk_item gen \<Rightarrow> nat" where
  "walk_loop total_size Done = total_size"
| "walk_loop total_size (Raise e) = total_size"
| "walk_loop total_size (Yield (dirpath, dirnames, filenames) g) =
     walk_loop (add_file_sizes total_size filenames) g"

text \<open>The function body, for any answer of \<^verbatim>\<open>os.path.exists\<close> and any generator.\<close>

definition get_folder_size_of :: "bool \<Rightarrow> walk_item gen \<Rightarrow> nat" where
  "get_folder_size_of path_exists walk =
     (if \<not> path_exists then 0 else walk_loop 0 walk)"

definition walk_of :: "filesystem \<Rightarrow> string \<Rightarrow> walk_item gen" where
  "walk_of fs folder_path =
     (case fs folder_path of None \<Rightarrow> Done | Some n \<Rightarrow> gen_of (os_walk [folder_path] n) Done)"

definition get_folder_size :: "filesystem \<Rightarrow> string \<Rightarrow> nat" where
  "get_folder_size fs folder_path =
     get_folder_size_of (os_path_exists fs folder_path) (walk_of fs folder_path)"

section \<open>Removing entries\<close>

text \<open>
  An operating-system call that changes the entry at a path returns the exception it
  raised, if any, and what is at the path afterwards (\<open>None\<close>: nothing).
\<close>

type_synonym os_call = "node \<Rightarrow> os_error option \<times> node option"

fun os_unlink :: os_call where
  "os_unlink (File n Removable) = (None, None)"
| "os_unlink (File n ReadOnly) = (Some PermissionError, Some (File n ReadOnly))"
| "os_unlink (File n Locked) = (Some PermissionError, Some (File n Locked))"
| "os_unlink (Dir l cs) = (Some PermissionError, Some (Dir l cs))"
| "os_unlink Dangling = (None, None)"

fun os_rmdir :: os_call where
  "os_rmdir (Dir l []) = (None, None)"
| "os_rmdir (Dir l (c # cs)) = (Some OSError, Some (Dir l (c # cs)))"
| "os_rmdir (File n a) = (Some NotADirectoryError, Some (File n a))"
| "os_rmdir Dangling = (Some FileNotFoundError, Some Dangling)"

text \<open>\<^verbatim>\<open>os.scandir\<close> as a call whose listing is thrown away (it changes nothing).\<close>

fun os_scandir :: os_call where
  "os_scandir (Dir True cs) = (None, Some (Dir True cs))"
| "os_scandir (Dir False cs) = (Some PermissionError, Some (Dir False cs))"
| "os_scandir (File n a) = (Some NotADirectoryError, Some (File n a))"
| "os_scandir Dangling = (Some FileNotFoundError, Some Dangling)"

text \<open>\<^verbatim>\<open>os.chmod(path, stat.S_IWRITE)\<close> clears the read-only bit.\<close>

fun os_chmod_write :: "node \<Rightarrow> node" where
  "os_chmod_write (File n ReadOnly) = File n Removable"
| "os_chmod_write (File n Removable) = File n Removable"
| "os_chmod_write (File n Locked) = File n Locked"
| "os_chmod_write (Dir l cs) = Dir l cs"
| "os_chmod_write Dangling = Dangling"

text \<open>
  Lines 112 to 116. \<^verbatim>\<open>handle_remove_readonly(func, path, exc)\<close>: when the path exists,
  clear the read-only bit and call \<^verbatim>\<open>func(path)\<close> again; its exception, if any,
  leaves the handler. When the path does not exist the handler does nothing.
\<close>

definition handle_remove_readonly :: "os_call \<Rightarrow> node \<Rightarrow> os_error option \<times> node option" where
  "handle_remove_readonly func n =
     (if node_exists n then func (os_chmod_write n) else (None, Some n))"

text \<open>
  The pattern of \<^verbatim>\<open>shutil.rmtree\<close> around each call:
  \<^verbatim>\<open>try: func(path)  except OSError: onerror(func, path, sys.exc_info())\<close>.
\<close>

definition guarded :: "(os_call \<Rightarrow> node \<Rightarrow> os_error option \<times> node option) \<Rightarrow> os_call \<Rightarrow> os_call" where
  "guarded onerror func n =
     (case func n of
        (None, r) \<Rightarrow> (None, r)
      | (Some e, None) \<Rightarrow> (None, None)
      | (Some e, Some n') \<Rightarrow> onerror func n')"

fun keep :: "string \<Rightarrow> node option \<Rightarrow> (string \<times> node) list" where
  "keep name None = []"
| "keep name (Some n) = [(name, n)]"

text \<open>
  \<^verbatim>\<open>shutil.rmtree(path, onerror=...)\<close> where the directory tree is removed entry by
  entry (the implementation used on Windows): list the directory, remove each entry
  (directories recursively, the rest with \<^verbatim>\<open>os.unlink\<close>), then \<^verbatim>\<open>os.rmdir\<close> the
  directory. An exception that leaves the handler leaves \<^verbatim>\<open>rmtree\<close>, with what
  was removed so far gone and the rest in place. After a failed listing from which the
  handler returns, the list of entries is empty.
\<close>

function rmtree :: "(os_call \<Rightarrow> node \<Rightarrow> os_error option \<times> node option) \<Rightarrow> node \<Rightarrow> os_error option \<times> node option"
  and rmtree_entries :: "(os_call \<Rightarrow> node \<Rightarrow> os_error option \<times> node option) \<Rightarrow> (string \<times> node) list \<Rightarrow> os_error option \<times> (string \<times> node) list"
where
  "rmtree onerror (Dir True cs) =
     (case rmtree_entries onerror cs of
        (Some e, rest) \<Rightarrow> (Some e, Some (Dir True rest))
      | (None, rest) \<Rightarrow> guarded onerror os_rmdir (Dir True rest))"
| "rmtree onerror (Dir False cs) =
     (case guarded onerror os_scandir (Dir False cs) of
        (Some e, r) \<Rightarrow> (Some e, r)
      | (None, None) \<Rightarrow> (None, None)
      | (None, Some n') \<Rightarrow> guarded onerror os_rmdir n')"
| "rmtree onerror (File n a) =
     (case guarded onerror os_scandir (File n a) of
        (Some e, r) \<Rightarrow> (Some e, r)
      | (None, None) \<Rightarrow> (None, None)
      | (None, Some n') \<Rightarrow> guarded onerror os_rmdir n')"
| "rmtree onerror Dangling =
     (case guarded onerror os_scandir Dangling of
        (Some e, r) \<Rightarrow> (Some e, r)
      | (None, None) \<Rightarrow> (None, None)
      | (None, Some n') \<Rightarrow> guarded onerror os_rmdir n')"
| "rmtree_entries onerror [] = (None, [])"
| "rmtree_entries onerror ((name, c) # rest) =
     (case (if is_dir c then rmtree onerror c else guarded onerror os_unlink c) of
        (Some e, r) \<Rightarrow> (Some e, keep name r @ rest)
      | (None, r) \<Rightarrow>
          (case rmtree_entries onerror rest of (e, rest') \<Rightarrow> (e, keep name r @ rest')))"
  by pat_completeness auto
termination
  by (relation "measure (\<lambda>x. case x of
        Inl (h, n) \<Rightarrow> size n
      | Inr (h, cs) \<Rightarrow> size_list (size_prod (\<lambda>_. 0) size) cs)") auto

section \<open>\<^verbatim>\<open>clean_temp_folder\<close>\<close>

text \<open>The lines the function prints, by content (colours and glyphs left out).\<close>

datatype out =
    PathNotFound string
  | Cleaning string
  | Skipped string
  | ErrorAccessing string os_error
  | FilesDeleted nat
  | FoldersDeleted nat
  | ItemsSkipped nat

text \<open>
  The local variables of the deletion loop, with the lines printed so far and the
  entries of the snapshot that are still in the directory.
\<close>

record loop_state =
  files_deleted :: nat
  folders_deleted :: nat
  errors :: nat
  printed :: "out list"
  kept :: "(string \<times> node) list"

text \<open>
  Lines 135 to 145, one iteration. \<^verbatim>\<open>item.unlink()\<close> has no error handler of its own;
  \<^verbatim>\<open>shutil.rmtree\<close> gets \<^verbatim>\<open>handle_remove_readonly\<close>. An exception of either is
  caught by \<^verbatim>\<open>except (OSError, IOError, PermissionError)\<close>. An item that is neither a
  file nor a directory matches no branch.
\<close>

definition clean_item :: "loop_state \<Rightarrow> string \<times> node \<Rightarrow> loop_state" where
  "clean_item s item =
     (case item of (name, n) \<Rightarrow>
        if is_file n then
          (case os_unlink n of
             (None, r) \<Rightarrow>
               s\<lparr>files_deleted := files_deleted s + 1, kept := kept s @ keep name r\<rparr>
           | (Some e, r) \<Rightarrow>
               s\<lparr>errors := errors s + 1, printed := printed s @ [Skipped name],
                 kept := kept s @ keep name r\<rparr>)
        else if is_dir n then
          (case rmtree handle_remove_readonly n of
             (None, r) \<Rightarrow>
               s\<lparr>folders_deleted := folders_deleted s + 1, kept := kept s @ keep name r\<rparr>
           | (Some e, r) \<Rightarrow>
               s\<lparr>errors := errors s + 1, printed := printed s @ [Skipped name],
                 kept := kept s @ keep name r\<rparr>)
        else s\<lparr>kept := kept s @ [(name, n)]\<rparr>)"

fun clean_items :: "loop_state \<Rightarrow> (string \<times> node) list \<Rightarrow> loop_state" where
  "clean_items s [] = s"
| "clean_items s (item # items) = clean_items (clean_item s item) items"

text \<open>\<^verbatim>\<open>list(Path(folder_path).iterdir())\<close>: the snapshot of the immediate children.\<close>

fun iterdir :: "node \<Rightarrow> os_error + (string \<times> node) list" where
  "iterdir (Dir True cs) = Inr cs"
| "iterdir (Dir False cs) = Inl PermissionError"
| "iterdir (File n a) = Inl NotADirectoryError"
| "iterdir Dangling = Inl FileNotFoundError"

text \<open>Lines 124 to 129: the state in which the loop starts.\<close>

definition initial_state :: "string \<Rightarrow> loop_state" where
  "initial_state location_name =
     \<lparr>files_deleted = 0, folders_deleted = 0, errors = 0,
      printed = [Cleaning location_name], kept = []\<rparr>"

text \<open>
  What a call leaves behind: the value it returns, the lines it prints and the file
  system. The only value \<^verbatim>\<open>clean_temp_folder\<close> returns is \<^verbatim>\<open>space_freed\<close> (or 0).
\<close>

record call_result =
  returned :: int
  stdout :: "out list"
  fs_after :: filesystem

text \<open>
  Lines 118 to 159. The program is not alone on the machine: \<open>others\<close> is what other
  processes do to the file system between the end of the deletion loop and the second
  measurement (the identity when nothing else writes there).
\<close>

definition clean_temp_folder ::
  "(filesystem \<Rightarrow> filesystem) \<Rightarrow> filesystem \<Rightarrow> string \<Rightarrow> string \<Rightarrow> call_result" where
  "clean_temp_folder others fs folder_path location_name =
     (if \<not> os_path_exists fs folder_path then
        \<lparr>returned = 0, stdout = [PathNotFound folder_path], fs_after = fs\<rparr>
      else
        let initial_size = get_folder_size fs folder_path in
        (case fs folder_path of
           None \<Rightarrow> \<lparr>returned = 0, stdout = [PathNotFound folder_path], fs_after = fs\<rparr>
         | Some target \<Rightarrow>
            (case iterdir target of
               Inl e \<Rightarrow>
                 \<lparr>returned = 0,
                  stdout = [Cleaning location_name, ErrorAccessing location_name e],
                  fs_after = fs\<rparr>
             | Inr items \<Rightarrow>
                 let s = clean_items (initial_state location_name) items;
                     fs' = others (fs(folder_path \<mapsto> Dir True (kept s)));
                     final_size = get_folder_size fs' folder_path;
                     space_freed = int initial_size - int final_size
                 in \<lparr>returned = space_freed,
                     stdout = printed s
                       @ [FilesDeleted (files_deleted s), FoldersDeleted (folders_deleted s)]
                       @ (if errors s > 0 then [ItemsSkipped (errors s)] else []),
                     fs_after = fs'\<rparr>)))"

section \<open>Notions the properties are stated with\<close>


text \<open>The same sum over the files that lie in directories that can be listed.\<close>

fun listed_bytes :: "node \<Rightarrow> nat" where
  "listed_bytes (File n a) = n"
| "listed_bytes (Dir True cs) = sum_list (map (\<lambda>(name, c). listed_bytes c) cs)"
| "listed_bytes (Dir False cs) = 0"
| "listed_bytes Dangling = 0"


text \<open>
  A tree that \<^verbatim>\<open>rmtree\<close> with the handler removes completely: no locked file and
  no directory that cannot be listed in it.
\<close>

fun deletable :: "node \<Rightarrow> bool" where
  "deletable (File n a) = (a \<noteq> Locked)"
| "deletable (Dir l cs) = (l \<and> list_all (\<lambda>(name, c). deletable c) cs)"
| "deletable Dangling = True"

text \<open>
  A top-level child whose removal succeeds: a file that \<^verbatim>\<open>unlink\<close> accepts as it is,
  or a directory whose tree can be removed completely.
\<close>

fun removable :: "node \<Rightarrow> bool" where
  "removable (File n a) = (a = Removable)"
| "removable (Dir l cs) = deletable (Dir l cs)"
| "removable Dangling = False"

text \<open>A top-level child that is a file or a directory and whose removal fails.\<close>

definition fails :: "node \<Rightarrow> bool" where
  "fails n = ((is_file n \<or> is_dir n) \<and> \<not> removable n)"

definition targeted :: "string \<times> node \<Rightarrow> bool" where
  "targeted item = (is_file (snd item) \<or> is_dir (snd item))"

section \<open>Python numbers\<close>

text \<open>
  The arithmetic of the reporting functions runs on Python's \<^verbatim>\<open>int\<close> (unbounded,
  \<open>int\<close> here) and \<^verbatim>\<open>float\<close> (IEEE 754 binary64). A float is a sign bit with a
  magnitude, an infinity or a NaN; the magnitude of a finite float is kept as the exact
  rational it stands for (the sign apart, so that \<^verbatim>\<open>-0.0\<close> is \<open>Finite True 0\<close>).
\<close>

datatype arith_error = ZeroDivisionError | OverflowError | ValueError

datatype pyfloat = Finite bool rat | Infinity bool | NaN

datatype pynum = PyInt int | PyFloat pyfloat

text \<open>\<^verbatim>\<open>int.bit_length\<close>: the number of binary digits of a natural number.\<close>

fun bit_length :: "nat \<Rightarrow> nat" where
  "bit_length n = (if n = 0 then 0 else Suc (bit_length (n div 2)))"

declare bit_length.simps [simp del]

definition pow2 :: "int \<Rightarrow> rat" where
  "pow2 e = (if 0 \<le> e then 2 ^ nat e else 1 / 2 ^ nat (- e))"

text \<open>For \<open>q > 0\<close>, the exponent \<open>e\<close> with \<open>2^e \<le> q < 2^(e+1)\<close>.\<close>

definition floor_log2 :: "rat \<Rightarrow> int" where
  "floor_log2 q =
     (if 1 \<le> q then int (bit_length (nat \<lfloor>q\<rfloor>)) - 1
      else - int (bit_length (nat (\<lceil>1 / q\<rceil> - 1))))"

text \<open>Rounding to the nearest integer, ties to the even one.\<close>

definition round_half_even :: "rat \<Rightarrow> int" where
  "round_half_even q =
     (let f = \<lfloor>q\<rfloor>; r = q - of_int f
      in if r < 1 / 2 then f else if 1 / 2 < r then f + 1 else if even f then f else f + 1)"

text \<open>
  The spacing of binary64 numbers around \<open>q > 0\<close>: 53 significant bits, and the
  fixed spacing \<open>2^-1074\<close> of the subnormal range. \<open>round_double\<close> is rounding to
  nearest, ties to even, of a magnitude; a result of \<open>2^1024\<close> or more is an overflow.
\<close>

definition ulp :: "rat \<Rightarrow> rat" where
  "ulp q = pow2 (max (floor_log2 q - 52) (- 1074))"

definition round_double :: "rat \<Rightarrow> rat" where
  "round_double q = (if q = 0 then 0 else of_int (round_half_even (q / ulp q)) * ulp q)"

definition overflows :: "rat \<Rightarrow> bool" where
  "overflows m = (pow2 1024 \<le> m)"

text \<open>
  \<^verbatim>\<open>a / b\<close> on two ints: the correctly rounded quotient,
  \<^verbatim>\<open>ZeroDivisionError\<close> for a zero divisor, \<^verbatim>\<open>OverflowError\<close> ("integer division
  result too large for a float") when the quotient does not fit.
\<close>

definition int_truediv :: "int \<Rightarrow> int \<Rightarrow> arith_error + pyfloat" where
  "int_truediv a b =
     (if b = 0 then Inl ZeroDivisionError
      else if overflows (round_double \<bar>of_int a / of_int b\<bar>) then Inl OverflowError
      else Inr (Finite ((a < 0) \<noteq> (b < 0)) (round_double \<bar>of_int a / of_int b\<bar>)))"

text \<open>\<^verbatim>\<open>float(i)\<close>, also applied implicitly when an int meets a float.\<close>

definition float_of_int :: "int \<Rightarrow> arith_error + pyfloat" where
  "float_of_int i =
     (if overflows (round_double \<bar>of_int i\<bar>) then Inl OverflowError
      else Inr (Finite (i < 0) (round_double \<bar>of_int i\<bar>)))"

text \<open>Float multiplication never raises: an overflow gives an infinity.\<close>

fun float_mul :: "pyfloat \<Rightarrow> pyfloat \<Rightarrow> pyfloat" where
  "float_mul (Finite s a) (Finite t b) =
     (if overflows (round_double (a * b)) then Infinity (s \<noteq> t)
      else Finite (s \<noteq> t) (round_double (a * b)))"
| "float_mul (Finite s a) (Infinity t) = (if a = 0 then NaN else Infinity (s \<noteq> t))"
| "float_mul (Infinity s) (Finite t b) = (if b = 0 then NaN else Infinity (s \<noteq> t))"
| "float_mul (Infinity s) (Infinity t) = Infinity (s \<noteq> t)"
| "float_mul NaN y = NaN"
| "float_mul x NaN = NaN"

text \<open>Float division raises \<^verbatim>\<open>ZeroDivisionError\<close> for a zero divisor.\<close>

fun float_truediv :: "pyfloat \<Rightarrow> pyfloat \<Rightarrow> arith_error + pyfloat" where
  "float_truediv x (Finite t b) =
     (if b = 0 then Inl ZeroDivisionError
      else case x of
        Finite s a \<Rightarrow>
          Inr (if overflows (round_double (a / b)) then Infinity (s \<noteq> t)
               else Finite (s \<noteq> t) (round_double (a / b)))
      | Infinity s \<Rightarrow> Inr (Infinity (s \<noteq> t))
      | NaN \<Rightarrow> Inr NaN)"
| "float_truediv (Finite s a) (Infinity t) = Inr (Finite (s \<noteq> t) 0)"
| "float_truediv (Infinity s) (Infinity t) = Inr NaN"
| "float_truediv NaN (Infinity t) = Inr NaN"
| "float_truediv x NaN = Inr NaN"

definition bind :: "arith_error + 'a \<Rightarrow> ('a \<Rightarrow> arith_error + 'b) \<Rightarrow> arith_error + 'b" where
  "bind r f = (case r of Inl e \<Rightarrow> Inl e | Inr x \<Rightarrow> f x)"

text \<open>\<^verbatim>\<open>i * x\<close> and \<^verbatim>\<open>x / i\<close> for an int \<open>i\<close> and a number \<open>x\<close>.\<close>

fun int_times :: "int \<Rightarrow> pynum \<Rightarrow> arith_error + pynum" where
  "int_times i (PyInt p) = Inr (PyInt (i * p))"
| "int_times i (PyFloat x) = bind (float_of_int i) (\<lambda>y. Inr (PyFloat (float_mul y x)))"

fun num_times_int :: "pynum \<Rightarrow> int \<Rightarrow> arith_error + pynum" where
  "num_times_int (PyInt p) i = Inr (PyInt (p * i))"
| "num_times_int (PyFloat x) i = bind (float_of_int i) (\<lambda>y. Inr (PyFloat (float_mul x y)))"

fun num_truediv_int :: "pynum \<Rightarrow> int \<Rightarrow> arith_error + pyfloat" where
  "num_truediv_int (PyInt p) i = int_truediv p i"
| "num_truediv_int (PyFloat x) i = bind (float_of_int i) (\<lambda>y. float_truediv x y)"

text \<open>\<^verbatim>\<open>int(x)\<close> truncates towards zero.\<close>

fun int_of_float :: "pyfloat \<Rightarrow> arith_error + int" where
  "int_of_float (Finite s m) = Inr (if s then - \<lfloor>m\<rfloor> else \<lfloor>m\<rfloor>)"
| "int_of_float (Infinity s) = Inl OverflowError"
| "int_of_float NaN = Inl ValueError"

text \<open>\<^verbatim>\<open>x < i\<close>: exact comparison of a number with an int; false for a NaN.\<close>

fun num_less_int :: "pynum \<Rightarrow> int \<Rightarrow> bool" where
  "num_less_int (PyInt p) i = (p < i)"
| "num_less_int (PyFloat (Finite s m)) i = ((if s then - m else m) < of_int i)"
| "num_less_int (PyFloat (Infinity s)) i = s"
| "num_less_int (PyFloat NaN) i = False"

text \<open>
  \<^verbatim>\<open>round(x, ndigits)\<close> on a float: the decimal with \<open>ndigits\<close> places nearest to the
  exact value (ties to even), converted back to the nearest float.
\<close>

fun py_round :: "pyfloat \<Rightarrow> nat \<Rightarrow> pyfloat" where
  "py_round (Finite s m) ndigits =
     Finite s (round_double (of_int (round_half_even (m * 10 ^ ndigits)) / 10 ^ ndigits))"
| "py_round (Infinity s) ndigits = Infinity s"
| "py_round NaN ndigits = NaN"

section \<open>Formatting\<close>

definition digit_char :: "nat \<Rightarrow> char" where
  "digit_char d = ''0123456789'' ! d"

fun str_nat :: "nat \<Rightarrow> string" where
  "str_nat n = (if n < 10 then [digit_char n] else str_nat (n div 10) @ [digit_char (n mod 10)])"

declare str_nat.simps [simp del]

text \<open>The last \<open>d\<close> decimal digits of \<open>n\<close>, with leading zeros.\<close>

fun last_digits :: "nat \<Rightarrow> nat \<Rightarrow> string" where
  "last_digits 0 n = []"
| "last_digits (Suc d) n = last_digits d (n div 10) @ [digit_char (n mod 10)]"

text \<open>
  The format specification \<^verbatim>\<open>.df\<close> applied to a float: the exact value rounded to
  \<open>d\<close> decimal places (ties to even), with the sign of the float, also when the digits
  are all zero.
\<close>

definition fixed_digits :: "nat \<Rightarrow> nat \<Rightarrow> string" where
  "fixed_digits d k = str_nat (k div 10 ^ d) @ ''.'' @ last_digits d k"

fun format_f :: "nat \<Rightarrow> pyfloat \<Rightarrow> string" where
  "format_f d (Finite s m) =
     (if s then ''-'' else '''') @ fixed_digits d (nat (round_half_even (m * 10 ^ d)))"
| "format_f d (Infinity s) = (if s then ''-inf'' else ''inf'')"
| "format_f d NaN = ''nan''"

text \<open>The same on a number: an int is converted to a float first.\<close>

fun format_f_num :: "nat \<Rightarrow> pynum \<Rightarrow> arith_error + string" where
  "format_f_num d (PyInt p) = bind (float_of_int p) (\<lambda>x. Inr (format_f d x))"
| "format_f_num d (PyFloat x) = Inr (format_f d x)"

section \<open>The reporting functions\<close>

text \<open>Lines 49 to 62.\<close>

definition bytes_to_mb :: "int \<Rightarrow> arith_error + pyfloat" where
  "bytes_to_mb bytes_size =
     bind (int_truediv bytes_size (1024 * 1024)) (\<lambda>x. Inr (py_round x 2))"

definition bytes_to_gb :: "int \<Rightarrow> arith_error + pyfloat" where
  "bytes_to_gb bytes_size =
     bind (int_truediv bytes_size (1024 * 1024 * 1024)) (\<lambda>x. Inr (py_round x 2))"

definition format_size :: "int \<Rightarrow> arith_error + string" where
  "format_size bytes_size =
     (if bytes_size \<ge> 1024 * 1024 * 1024
      then bind (bytes_to_gb bytes_size) (\<lambda>x. Inr (format_f 2 x @ '' GB''))
      else bind (bytes_to_mb bytes_size) (\<lambda>x. Inr (format_f 2 x @ '' MB'')))"

text \<open>Lines 10 to 27, the colours the progress bar uses.\<close>

definition BRIGHT_GREEN :: string where "BRIGHT_GREEN = CHR 0x1B # ''[92m''"
definition YELLOW :: string where "YELLOW = CHR 0x1B # ''[33m''"
definition BRIGHT_YELLOW :: string where "BRIGHT_YELLOW = CHR 0x1B # ''[93m''"
definition BRIGHT_RED :: string where "BRIGHT_RED = CHR 0x1B # ''[91m''"
definition DIM :: string where "DIM = CHR 0x1B # ''[2m''"
definition RESET :: string where "RESET = CHR 0x1B # ''[0m''"

text \<open>\<^verbatim>\<open>s * k\<close> on a string: \<open>k\<close> copies, none when \<open>k\<close> is negative.\<close>

definition str_times :: "string \<Rightarrow> int \<Rightarrow> string" where
  "str_times s k = concat (replicate (nat k) s)"

definition bar_color :: "pynum \<Rightarrow> string" where
  "bar_color percentage =
     (if num_less_int percentage 25 then BRIGHT_GREEN
      else if num_less_int percentage 50 then YELLOW
      else if num_less_int percentage 75 then BRIGHT_YELLOW
      else BRIGHT_RED)"

text \<open>Line 66: \<^verbatim>\<open>filled_width = int(width * percentage / 100)\<close>.\<close>

definition filled_width :: "pynum \<Rightarrow> int \<Rightarrow> arith_error + int" where
  "filled_width percentage width =
     bind (int_times width percentage) (\<lambda>product.
     bind (num_truediv_int product 100) int_of_float)"

text \<open>Lines 64 to 80. A glyph is a string of its own, whatever its encoding.\<close>

definition create_progress_bar :: "pynum \<Rightarrow> int \<Rightarrow> string \<Rightarrow> string \<Rightarrow> arith_error + string" where
  "create_progress_bar percentage width filled_char empty_char =
     bind (filled_width percentage width) (\<lambda>filled.
       let empty_width = width - filled;
           bar = bar_color percentage @ str_times filled_char filled @ DIM
                 @ str_times empty_char empty_width @ RESET
       in bind (format_f_num 1 percentage) (\<lambda>text.
            Inr (''['' @ bar @ ''] '' @ text @ ''%'')))"

text \<open>The default glyphs, U+2588 and U+2591, as their UTF-8 bytes.\<close>

definition full_block :: string where "full_block = [CHR 0xE2, CHR 0x96, CHR 0x88]"
definition light_shade :: string where "light_shade = [CHR 0xE2, CHR 0x96, CHR 0x91]"

text \<open>
  Lines 172, 179 and 186:
  \<^verbatim>\<open>(freed / initial * 100) if initial > 0 else 0\<close>.
\<close>

definition percentage_of :: "int \<Rightarrow> int \<Rightarrow> arith_error + pynum" where
  "percentage_of freed initial =
     (if initial > 0
      then bind (int_truediv freed initial) (\<lambda>ratio. num_times_int (PyFloat ratio) 100)
      else Inr (PyInt 0))"

text \<open>
  The lines of the summary that depend on the arguments, in printing order; the
  exception, if any, that ends \<^verbatim>\<open>display_cleanup_results\<close> comes with the lines
  printed before it.
\<close>

datatype summary_line =
    Heading string
  | Bar string
  | Recovered string
  | TotalRecovered string
  | Efficiency string

definition printing ::
  "summary_line list \<Rightarrow> arith_error + 'a \<Rightarrow> ('a \<Rightarrow> summary_line list \<times> arith_error option)
     \<Rightarrow> summary_line list \<times> arith_error option" where
  "printing done r f = (case r of Inl e \<Rightarrow> (done, Some e) | Inr x \<Rightarrow> f x)"

text \<open>Lines 161 to 196.\<close>

definition display_cleanup_results ::
  "int \<Rightarrow> int \<Rightarrow> int \<Rightarrow> int \<Rightarrow> summary_line list \<times> arith_error option" where
  "display_cleanup_results user_temp_freed system_temp_freed user_temp_initial system_temp_initial =
     (let total_freed = user_temp_freed + system_temp_freed;
          total_initial = user_temp_initial + system_temp_initial;
          l0 = [Heading ''CLEANUP RESULTS'']
      in printing l0 (percentage_of user_temp_freed user_temp_initial) (\<lambda>user_percentage.
         let l1 = l0 @ [Heading ''User Temp Folder:''] in
         printing l1 (create_progress_bar user_percentage 30 full_block light_shade) (\<lambda>b1.
         let l2 = l1 @ [Bar b1] in
         printing l2 (format_size user_temp_freed) (\<lambda>r1.
         let l3 = l2 @ [Recovered r1] in
         printing l3 (percentage_of system_temp_freed system_temp_initial) (\<lambda>system_percentage.
         let l4 = l3 @ [Heading ''System Temp Folder:''] in
         printing l4 (create_progress_bar system_percentage 30 full_block light_shade) (\<lambda>b2.
         let l5 = l4 @ [Bar b2] in
         printing l5 (format_size system_temp_freed) (\<lambda>r2.
         let l6 = l5 @ [Recovered r2] in
         printing l6 (percentage_of total_freed total_initial) (\<lambda>total_percentage.
         let l7 = l6 @ [Heading ''Total Cleanup:''] in
         printing l7 (create_progress_bar total_percentage 40 full_block light_shade) (\<lambda>b3.
         let l8 = l7 @ [Bar b3] in
         printing l8 (format_size total_freed) (\<lambda>r3.
         let l9 = l8 @ [TotalRecovered r3, Heading ''Summary:''] in
         printing l9 (format_f_num 1 total_percentage) (\<lambda>eff.
         (l9 @ [Efficiency (eff @ ''%'')], None))))))))))))"

text \<open>
  The number of hundredths that \<^verbatim>\<open>format_size\<close> shows for a quotient of magnitude
  \<open>x\<close>: the quotient is rounded to a float, \<^verbatim>\<open>round(x, 2)\<close> takes the nearest
  hundredth and converts it to a float, and the format \<^verbatim>\<open>.2f\<close> takes the nearest
  hundredth of that.
\<close>

definition shown_hundredths :: "rat \<Rightarrow> nat" where
  "shown_hundredths x =
     nat (round_half_even
       (round_double (of_int (round_half_even (round_double x * 100)) / 100) * 100))"

text \<open>
  A percentage between 0 and 100: an int in that range, or a finite float in that range
  (a negative zero is equal to 0).
\<close>

fun in_percent_range :: "pynum \<Rightarrow> bool" where
  "in_percent_range (PyInt i) = (0 \<le> i \<and> i \<le> 100)"
| "in_percent_range (PyFloat (Finite s m)) = (0 \<le> m \<and> m \<le> 100 \<and> (s \<longrightarrow> m = 0))"
| "in_percent_range (PyFloat (Infinity s)) = False"
| "in_percent_range (PyFloat NaN) = False"

text \<open>
  The float that \<^verbatim>\<open>width * percentage / 100\<close> evaluates to for such a percentage
  and a width that is not negative: one rounding when both factors are ints, and one
  for each of the conversion, the product and the quotient when the percentage is a
  float.
\<close>

fun bar_quotient :: "pynum \<Rightarrow> int \<Rightarrow> rat" where
  "bar_quotient (PyInt i) width = round_double (of_int (width * i) / 100)"
| "bar_quotient (PyFloat (Finite s m)) width =
     round_double (round_double (round_double (of_int width) * m) / 100)"
| "bar_quotient (PyFloat (Infinity s)) width = 0"
| "bar_quotient (PyFloat NaN) width = 0"

text \<open>The text that the format \<^verbatim>\<open>.1f\<close> gives for such a percentage.\<close>

fun percent_text :: "pynum \<Rightarrow> string" where
  "percent_text (PyInt i) = format_f 1 (Finite (i < 0) (round_double \<bar>of_int i\<bar>))"
| "percent_text (PyFloat x) = format_f 1 x"

section \<open>Measuring\<close>
lemma add_file_sizes_acc: "add_file_sizes t xs = t + add_file_sizes 0 xs"
proof (induction xs arbitrary: t)
  case Nil show ?case by simp
next
  case (Cons x xs)
  obtain name lk where x: "x = (name, lk)" by (cases x)
  show ?case
  proof (cases "lk_exists lk")
    case False then show ?thesis using Cons.IH[of t] by (simp add: x)
  next
    case True
    show ?thesis
    proof (cases "lk_getsize lk")
      case (Inl e) then show ?thesis using True Cons.IH[of t] by (simp add: x)
    next
      case (Inr n) then show ?thesis using True Cons.IH[of "t + n"] Cons.IH[of n] by (simp add: x)
    qed
  qed
qed

lemma walk_loop_append:
  "walk_loop t (gen_of (xs @ ys) g) = walk_loop (walk_loop t (gen_of xs Done)) (gen_of ys g)"
  by (induction xs arbitrary: t) (auto split: prod.splits)


lemma files_sum:
  "add_file_sizes t (map (\<lambda>(name, c). (name, lookup_of c)) (filter (\<lambda>(name, c). \<not> is_dir c) cs))
     = t + sum_list (map (\<lambda>(name, c). if is_dir c then 0 else listed_bytes c) cs)"
proof (induction cs arbitrary: t)
  case Nil show ?case by simp
next
  case (Cons x cs)
  obtain name c where x: "x = (name, c)" by (cases x)
  show ?case using Cons.IH by (cases c rule: listed_bytes.cases) (simp_all add: x lookup_of_def)
qed

lemma walk_sum: "walk_loop t (gen_of (os_walk d n) g)
   = walk_loop (t + (if is_dir n then listed_bytes n else 0)) g"
proof (induction d n arbitrary: t g rule: os_walk.induct)
  case (1 dirpath cs)
  have sub: "walk_loop t (gen_of (concat (map (\<lambda>(name, c). if is_dir c then os_walk (dirpath @ [name]) c else []) cs')) g)
     = walk_loop (t + sum_list (map (\<lambda>(name, c). if is_dir c then listed_bytes c else 0) cs')) g"
    if "set cs' \<subseteq> set cs" for cs' t g
    using that
  proof (induction cs' arbitrary: t)
    case Nil show ?case by simp
  next
    case (Cons x xs)
    obtain name c where x: "x = (name, c)" by (cases x)
    have mem: "(name, c) \<in> set cs" using Cons.prems x by simp
    show ?case
    proof (cases "is_dir c")
      case False then show ?thesis using Cons x by simp
    next
      case True
      have "walk_loop t (gen_of (os_walk (dirpath @ [name]) c @ concat (map (\<lambda>(name, c). if is_dir c then os_walk (dirpath @ [name]) c else []) xs)) g)
        = walk_loop (walk_loop t (gen_of (os_walk (dirpath @ [name]) c) Done)) (gen_of (concat (map (\<lambda>(name, c). if is_dir c then os_walk (dirpath @ [name]) c else []) xs)) g)"
        by (rule walk_loop_append)
      also have "walk_loop t (gen_of (os_walk (dirpath @ [name]) c) Done) = t + listed_bytes c"
        using "1.IH"[OF mem _ True, of name t Done] True by simp
      finally show ?thesis using Cons True x by (simp add: add.assoc)
    qed
  qed
  have split: "sum_list (map (\<lambda>(name, c). listed_bytes c) cs)
     = sum_list (map (\<lambda>(name, c). if is_dir c then 0 else listed_bytes c) cs)
     + sum_list (map (\<lambda>(name, c). if is_dir c then listed_bytes c else 0) cs)"
    by (induction cs) (auto)
  show ?case using sub[of cs] by (simp add: files_sum split add.assoc)
qed simp_all

lemma get_folder_size_dir: "fs p = Some (Dir l cs) \<Longrightarrow> get_folder_size fs p = listed_bytes (Dir l cs)"
  using walk_sum[of 0 "[p]" "Dir l cs" Done]
  by (simp add: get_folder_size_def get_folder_size_of_def os_path_exists_def walk_of_def)

section \<open>Removing\<close>

lemma guarded_unlink:
  "\<not> is_dir c \<Longrightarrow> guarded handle_remove_readonly os_unlink c =
     (if deletable c then (None, None) else (Some PermissionError, Some c))"
  by (cases c rule: os_unlink.cases) (simp_all add: guarded_def handle_remove_readonly_def)

lemma rmtree_deletable:
  "is_dir n \<longrightarrow> (deletable n \<longrightarrow> rmtree handle_remove_readonly n = (None, None))
     \<and> (\<not> deletable n \<longrightarrow> (\<exists>e r. rmtree handle_remove_readonly n = (Some e, Some r) \<and> is_dir r))"
  and "(list_all (\<lambda>(name, c). deletable c) cs \<longrightarrow> rmtree_entries handle_remove_readonly cs = (None, []))
     \<and> (\<not> list_all (\<lambda>(name, c). deletable c) cs \<longrightarrow>
          (\<exists>e rest. rmtree_entries handle_remove_readonly cs = (Some e, rest)))"
proof (induction "handle_remove_readonly" n and "handle_remove_readonly" cs rule: rmtree_rmtree_entries.induct)
  case (1 cs)
  show ?case
  proof (cases "list_all (\<lambda>(name, c). deletable c) cs")
    case True
    then show ?thesis using 1 by (simp add: guarded_def)
  next
    case False
    then obtain e rest where "rmtree_entries handle_remove_readonly cs = (Some e, rest)"
      using 1 by blast
    then show ?thesis using False by simp
  qed
next
  case (2 cs)
  then show ?case by (simp add: guarded_def handle_remove_readonly_def)
next
  case (3 n a) then show ?case by simp
next
  case 4 then show ?case by simp
next
  case 5 then show ?case by simp
next
  case (6 name c rest)
  show ?case
  proof (cases "is_dir c")
    case True
    show ?thesis
    proof (cases "deletable c")
      case d: True
      then have "rmtree handle_remove_readonly c = (None, None)" using 6(1) True by simp
      then show ?thesis using 6(2) True d by (auto split: prod.splits)
    next
      case d: False
      then obtain e r where "rmtree handle_remove_readonly c = (Some e, Some r)" using 6(1) True by blast
      then show ?thesis using True d by simp
    qed
  next
    case False
    show ?thesis
    proof (cases "deletable c")
      case d: True
      then show ?thesis using 6(2) False d by (auto simp: guarded_unlink split: prod.splits)
    next
      case d: False
      then show ?thesis using False by (simp add: guarded_unlink)
    qed
  qed
qed




lemma rmtree_dir:
  "is_dir n \<Longrightarrow> removable n \<Longrightarrow> rmtree handle_remove_readonly n = (None, None)"
  "is_dir n \<Longrightarrow> \<not> removable n \<Longrightarrow> \<exists>e r. rmtree handle_remove_readonly n = (Some e, Some r) \<and> is_dir r"
  using rmtree_deletable(1)[of n] by (cases n; simp)+

lemma clean_item_file_ok:
  "is_file n \<Longrightarrow> removable n \<Longrightarrow> clean_item s (name, n) = s\<lparr>files_deleted := files_deleted s + 1\<rparr>"
  by (cases n rule: os_unlink.cases) (simp_all add: clean_item_def)

lemma clean_item_dir_ok:
  "is_dir n \<Longrightarrow> removable n \<Longrightarrow> clean_item s (name, n) = s\<lparr>folders_deleted := folders_deleted s + 1\<rparr>"
  using rmtree_dir(1)[of n] by (cases n) (simp_all add: clean_item_def)

lemma clean_item_file_fails:
  "is_file n \<Longrightarrow> \<not> removable n \<Longrightarrow> clean_item s (name, n) =
     s\<lparr>errors := errors s + 1, printed := printed s @ [Skipped name], kept := kept s @ [(name, n)]\<rparr>"
  by (cases n rule: os_unlink.cases) (simp_all add: clean_item_def)

lemma clean_item_fails:
  "fails n \<Longrightarrow> \<exists>r. (is_file r \<or> is_dir r) \<and> clean_item s (name, n) =
     s\<lparr>errors := errors s + 1, printed := printed s @ [Skipped name], kept := kept s @ [(name, r)]\<rparr>"
proof (cases "is_file n")
  case True
  assume "fails n"
  then have "\<not> removable n" by (simp add: fails_def)
  then show ?thesis using True clean_item_file_fails[of n s name] by blast
next
  case False
  assume f: "fails n"
  then have d: "is_dir n" "\<not> removable n" using False by (simp_all add: fails_def)
  then obtain e r where "rmtree handle_remove_readonly n = (Some e, Some r)" "is_dir r"
    using rmtree_dir(2) by blast
  then show ?thesis using False d by (auto simp: clean_item_def)
qed

lemma clean_item_other:
  "\<not> is_file n \<Longrightarrow> \<not> is_dir n \<Longrightarrow> clean_item s (name, n) = s\<lparr>kept := kept s @ [(name, n)]\<rparr>"
  by (simp add: clean_item_def)

lemma node_cases4:
  obtains "is_file n" "removable n" | "is_dir n" "removable n" | "fails n" | "\<not> is_file n" "\<not> is_dir n"
  by (cases n) (auto simp: fails_def)



lemma clean_items_summary:
  "files_deleted (clean_items s items) = files_deleted s + length (filter (\<lambda>(name, n). is_file n \<and> removable n) items)
 \<and> folders_deleted (clean_items s items) = folders_deleted s + length (filter (\<lambda>(name, n). is_dir n \<and> removable n) items)
 \<and> errors (clean_items s items) = errors s + length (filter (\<lambda>(name, n). fails n) items)
 \<and> printed (clean_items s items) = printed s @ map (\<lambda>(name, n). Skipped name) (filter (\<lambda>(name, n). fails n) items)
 \<and> map fst (filter targeted (kept (clean_items s items))) = map fst (filter targeted (kept s)) @ map fst (filter (\<lambda>(name, n). fails n) items)
 \<and> filter (\<lambda>item. \<not> targeted item) (kept (clean_items s items)) = filter (\<lambda>item. \<not> targeted item) (kept s) @ filter (\<lambda>item. \<not> targeted item) items"
proof (induction items arbitrary: s)
  case Nil show ?case by simp
next
  case (Cons item items)
  obtain name n where item: "item = (name, n)" by (cases item)
  show ?case
  proof (cases n rule: node_cases4)
    case 1
    then have "\<not> fails n" "\<not> is_dir n" by (cases n; simp add: fails_def)+
    then show ?thesis using 1 Cons.IH[of "clean_item s item"]
      by (simp add: item clean_item_file_ok targeted_def)
  next
    case 2
    then have "\<not> fails n" "\<not> is_file n" by (cases n; simp add: fails_def)+
    then show ?thesis using 2 Cons.IH[of "clean_item s item"]
      by (simp add: item clean_item_dir_ok targeted_def)
  next
    case 3
    then obtain r where r: "is_file r \<or> is_dir r" "clean_item s (name, n) =
     s\<lparr>errors := errors s + 1, printed := printed s @ [Skipped name], kept := kept s @ [(name, r)]\<rparr>"
      using clean_item_fails by blast
    have "\<not> removable n" "is_file n \<or> is_dir n" using 3 by (simp_all add: fails_def)
    then show ?thesis using 3 r Cons.IH[of "clean_item s item"]
      by (simp add: item targeted_def)
  next
    case 4
    then have "\<not> fails n" by (simp add: fails_def)
    then show ?thesis using 4 Cons.IH[of "clean_item s item"]
      by (simp add: item clean_item_other targeted_def)
  qed
qed


lemma get_folder_size_node:
  "get_folder_size fs p =
     (case fs p of None \<Rightarrow> 0 | Some n \<Rightarrow> if is_dir n then listed_bytes n else 0)"
proof (cases "fs p")
  case None
  then show ?thesis
    by (simp add: get_folder_size_def get_folder_size_of_def os_path_exists_def)
next
  case (Some n)
  show ?thesis
  proof (cases n)
    case (Dir l cs)
    then show ?thesis using Some get_folder_size_dir[of fs p l cs] by simp
  next
    case (File k a)
    then show ?thesis using Some
      by (simp add: get_folder_size_def get_folder_size_of_def os_path_exists_def walk_of_def)
  next
    case Dangling
    then show ?thesis using Some
      by (simp add: get_folder_size_def get_folder_size_of_def os_path_exists_def)
  qed
qed



lemma clean_temp_folder_listed:
  assumes "fs p = Some (Dir True cs)"
  shows "clean_temp_folder others fs p label =
    (let s = clean_items (initial_state label) cs;
         fs' = others (fs(p \<mapsto> Dir True (kept s)))
     in \<lparr>returned = int (get_folder_size fs p) - int (get_folder_size fs' p),
         stdout = printed s
           @ [FilesDeleted (files_deleted s), FoldersDeleted (folders_deleted s)]
           @ (if errors s > 0 then [ItemsSkipped (errors s)] else []),
         fs_after = fs'\<rparr>)"
  using assms by (simp add: clean_temp_folder_def os_path_exists_def Let_def)

lemma clean_items_initial:
  "files_deleted (clean_items (initial_state label) cs) = length (filter (\<lambda>(name, n). is_file n \<and> removable n) cs)"
  "folders_deleted (clean_items (initial_state label) cs) = length (filter (\<lambda>(name, n). is_dir n \<and> removable n) cs)"
  "errors (clean_items (initial_state label) cs) = length (filter (\<lambda>(name, n). fails n) cs)"
  "printed (clean_items (initial_state label) cs) = Cleaning label # map (\<lambda>(name, n). Skipped name) (filter (\<lambda>(name, n). fails n) cs)"
  "map fst (filter targeted (kept (clean_items (initial_state label) cs))) = map fst (filter (\<lambda>(name, n). fails n) cs)"
  "filter (\<lambda>item. \<not> targeted item) (kept (clean_items (initial_state label) cs)) = filter (\<lambda>item. \<not> targeted item) cs"
  using clean_items_summary[of "initial_state label" cs] by (simp_all add: initial_state_def)


lemma removable_not_fails: "removable n \<Longrightarrow> \<not> fails n \<and> targeted (name, n)"
  by (cases n) (simp_all add: fails_def targeted_def)

lemma all_removable_kept:
  assumes "list_all (\<lambda>(name, n). removable n) cs"
  shows "kept (clean_items (initial_state label) cs) = []"
proof -
  have r: "removable n" if "(name, n) \<in> set cs" for name n
    using assms that by (auto simp: list_all_iff)
  have a1: "filter (\<lambda>(name, n). fails n) cs = []"
    using r removable_not_fails by (fastforce simp: filter_empty_conv)
  have a2: "filter (\<lambda>item. \<not> targeted item) cs = []"
    using r removable_not_fails by (fastforce simp: filter_empty_conv)
  let ?k = "kept (clean_items (initial_state label) cs)"
  have k1: "filter targeted ?k = []"
    using clean_items_initial(5)[of label cs] a1 by simp
  have k2: "filter (\<lambda>item. \<not> targeted item) ?k = []"
    using clean_items_initial(6)[of label cs] a2 by simp
  show ?thesis
  proof (cases ?k)
    case Nil then show ?thesis .
  next
    case (Cons x xs)
    then show ?thesis using k1 k2 by (cases "targeted x") simp_all
  qed
qed


section \<open>Properties of \<^verbatim>\<open>get_folder_size\<close>\<close>






section \<open>Properties of \<^verbatim>\<open>clean_temp_folder\<close>\<close>









text \<open>
  C6: when a first \<^verbatim>\<open>clean_temp_folder\<close> has removed every child of an existing
  directory, and nothing else writes there, the directory is empty and a second call on
  it returns 0 and prints 0 deleted files, 0 deleted folders and no skipped item.
\<close>

theorem clean_twice_is_zero:
  assumes "fs p = Some (Dir True cs)" and "list_all (\<lambda>(name, n). removable n) cs"
  shows "fs_after (clean_temp_folder id fs p label) p = Some (Dir True [])
     \<and> returned (clean_temp_folder id (fs_after (clean_temp_folder id fs p label)) p label) = 0
     \<and> stdout (clean_temp_folder id (fs_after (clean_temp_folder id fs p label)) p label)
         = [Cleaning label, FilesDeleted 0, FoldersDeleted 0]
     \<and> fs_after (clean_temp_folder id (fs_after (clean_temp_folder id fs p label)) p label) p
         = Some (Dir True [])"
proof -
  let ?fs1 = "fs_after (clean_temp_folder id fs p label)"
  have 1: "?fs1 p = Some (Dir True [])"
    using assms(1) clean_temp_folder_listed[of fs p cs id label] all_removable_kept[OF assms(2), of label]
    by (simp add: Let_def)
  have 2: "clean_temp_folder id ?fs1 p label =
     \<lparr>returned = 0, stdout = [Cleaning label, FilesDeleted 0, FoldersDeleted 0],
      fs_after = ?fs1(p \<mapsto> Dir True [])\<rparr>"
    using 1 clean_temp_folder_listed[of ?fs1 p "[]" id label]
    by (simp add: Let_def initial_state_def get_folder_size_node)
  show ?thesis using 1 by (simp add: 2)
qed

theorem clean_twice_is_zero_witness:
  "list_all (\<lambda>(name, n). removable n)
     [(''a'', File 10 Removable), (''d'', Dir True [(''x'', File 5 ReadOnly)])]
   \<and> returned (clean_temp_folder id (fs_after (clean_temp_folder id
        [''t'' \<mapsto> Dir True [(''a'', File 10 Removable), (''d'', Dir True [(''x'', File 5 ReadOnly)])]]
        ''t'' ''T'')) ''t'' ''T'') = 0
   \<and> stdout (clean_temp_folder id (fs_after (clean_temp_folder id
        [''t'' \<mapsto> Dir True [(''a'', File 10 Removable), (''d'', Dir True [(''x'', File 5 ReadOnly)])]]
        ''t'' ''T'')) ''t'' ''T'') = [Cleaning ''T'', FilesDeleted 0, FoldersDeleted 0]"
proof -
  have h: "list_all (\<lambda>(name, n). removable n)
     [(''a'', File 10 Removable), (''d'', Dir True [(''x'', File 5 ReadOnly)])]" by simp
  show ?thesis
    using h clean_twice_is_zero[
        where fs = "[''t'' \<mapsto> Dir True [(''a'', File 10 Removable), (''d'', Dir True [(''x'', File 5 ReadOnly)])]]"
          and p = "''t''"
          and cs = "[(''a'', File 10 Removable), (''d'', Dir True [(''x'', File 5 ReadOnly)])]"
          and label = "''T''"]
    by simp
qed

section \<open>Evaluating the arithmetic on numerals\<close>

lemma floor_rat_numeral: "\<lfloor>numeral a / numeral b :: rat\<rfloor> = numeral a div numeral b"
  by (metis floor_divide_of_int_eq of_int_numeral)

lemma ceiling_rat_numeral: "\<lceil>numeral a / numeral b :: rat\<rceil> = - ((- numeral a) div numeral b)"
  by (metis ceiling_divide_eq_div of_int_numeral)

lemma bit_length_numeral:
  "bit_length (numeral k) = Suc (bit_length (numeral k div 2))" "bit_length 0 = 0"
  "bit_length (Suc 0) = 1"
  by (simp_all add: bit_length.simps[of "numeral k"] bit_length.simps[of 0]
      bit_length.simps[of "Suc 0"])

lemmas fl_eval = int_truediv_def float_of_int_def overflows_def round_double_def ulp_def
  floor_log2_def pow2_def round_half_even_def Let_def bit_length_numeral floor_rat_numeral
  ceiling_rat_numeral

section \<open>No division by zero in the summary\<close>

lemma bind_not_zde:
  "r \<noteq> Inl ZeroDivisionError \<Longrightarrow> (\<And>x. f x \<noteq> Inl ZeroDivisionError)
     \<Longrightarrow> bind r f \<noteq> Inl ZeroDivisionError"
  by (cases r) (simp_all add: bind_def)

lemma bind_Inl: "bind r f = Inl e \<longleftrightarrow> r = Inl e \<or> (\<exists>x. r = Inr x \<and> f x = Inl e)"
  by (cases r) (simp_all add: bind_def)

lemma int_truediv_zde: "int_truediv a b = Inl ZeroDivisionError \<longleftrightarrow> b = 0"
  by (simp add: int_truediv_def)

lemma float_of_int_zde: "float_of_int i \<noteq> Inl ZeroDivisionError"
  by (simp add: float_of_int_def)

lemma float_of_int_100: "float_of_int 100 = Inr (Finite False 100)"
  by (simp add: fl_eval)

lemma num_truediv_100_zde: "num_truediv_int x 100 \<noteq> Inl ZeroDivisionError"
  by (cases x) (simp_all add: int_truediv_zde float_of_int_100 bind_def split: pyfloat.splits)

lemma int_of_float_zde: "int_of_float x \<noteq> Inl ZeroDivisionError"
  by (cases x) simp_all

lemma int_times_zde: "int_times w p \<noteq> Inl ZeroDivisionError"
  by (cases p) (simp_all add: bind_not_zde float_of_int_zde)

lemma num_times_int_zde: "num_times_int p i \<noteq> Inl ZeroDivisionError"
  by (cases p) (simp_all add: bind_not_zde float_of_int_zde)

lemma filled_width_zde: "filled_width p w \<noteq> Inl ZeroDivisionError"
  unfolding filled_width_def
  by (intro bind_not_zde int_times_zde num_truediv_100_zde int_of_float_zde)

lemma format_f_num_zde: "format_f_num d p \<noteq> Inl ZeroDivisionError"
  by (cases p) (simp_all add: bind_not_zde float_of_int_zde)

lemma create_progress_bar_zde: "create_progress_bar p w f e \<noteq> Inl ZeroDivisionError"
  unfolding create_progress_bar_def Let_def
  by (intro bind_not_zde filled_width_zde format_f_num_zde) simp

lemma format_size_zde: "format_size n \<noteq> Inl ZeroDivisionError"
  by (simp add: format_size_def bytes_to_gb_def bytes_to_mb_def bind_Inl int_truediv_zde)

lemma percentage_of_zde: "percentage_of freed initial \<noteq> Inl ZeroDivisionError"
  by (simp add: percentage_of_def bind_Inl int_truediv_zde float_of_int_zde)

lemma printing_zde:
  "r \<noteq> Inl ZeroDivisionError \<Longrightarrow> (\<And>x. snd (f x) \<noteq> Some ZeroDivisionError)
     \<Longrightarrow> snd (printing l r f) \<noteq> Some ZeroDivisionError"
  by (cases r) (simp_all add: printing_def)

lemma display_zde:
  "snd (display_cleanup_results uf sf ui si) \<noteq> Some ZeroDivisionError"
  unfolding display_cleanup_results_def Let_def
  by (intro printing_zde percentage_of_zde create_progress_bar_zde format_size_zde
      format_f_num_zde) simp

text \<open>
  C9: in the summary, the percentage of a target is \<^verbatim>\<open>freed / initial * 100\<close> when
  \<^verbatim>\<open>initial\<close> is positive and the int 0 otherwise, in particular when
  \<^verbatim>\<open>initial\<close> is 0; a percentage other than that 0 is computed only for a nonzero
  \<^verbatim>\<open>initial\<close>. So no \<^verbatim>\<open>ZeroDivisionError\<close> occurs, for any freed and initial
  values, in the percentage of a target nor anywhere in
  \<^verbatim>\<open>display_cleanup_results\<close>, the bar of the total included.
\<close>

theorem summary_never_divides_by_zero:
  "snd (display_cleanup_results user_freed system_freed user_initial system_initial)
     \<noteq> Some ZeroDivisionError
   \<and> percentage_of freed initial \<noteq> Inl ZeroDivisionError
   \<and> (initial = 0 \<longrightarrow> percentage_of freed initial = Inr (PyInt 0))
   \<and> (0 < initial \<longrightarrow> percentage_of freed initial
         = bind (int_truediv freed initial) (\<lambda>ratio. num_times_int (PyFloat ratio) 100))
   \<and> (percentage_of freed initial \<noteq> Inr (PyInt 0) \<longrightarrow> initial \<noteq> 0)"
  using display_zde[of user_freed system_freed user_initial system_initial]
    percentage_of_zde[of freed initial]
  by (auto simp: percentage_of_def)

theorem summary_never_divides_by_zero_witness:
  "percentage_of 5 0 = Inr (PyInt 0)
   \<and> (0::int) < 30
   \<and> percentage_of 7 30 = Inr (PyFloat (Finite False (6567749456581973 / 281474976710656)))
   \<and> percentage_of 7 30 \<noteq> Inr (PyInt 0)
   \<and> snd (display_cleanup_results 7 5 30 0) \<noteq> Some ZeroDivisionError"
  using summary_never_divides_by_zero[of 7 5 30 0 5 0]
    summary_never_divides_by_zero[of 7 5 30 0 7 30]
  by (simp add: fl_eval bind_def)

section \<open>Binary64 rounding\<close>

lemma pow2_powi: "pow2 e = 2 powi e"
  by (simp add: pow2_def power_int_def inverse_eq_divide power_one_over[symmetric])

lemma pow2_pos [simp]: "0 < pow2 e"
  by (simp add: pow2_powi)

lemma pow2_nonneg [simp]: "0 \<le> pow2 e"
  using pow2_pos[of e] by linarith

lemma pow2_neq0 [simp]: "pow2 e \<noteq> 0"
  using pow2_pos[of e] by linarith

lemma pow2_add: "pow2 (a + b) = pow2 a * pow2 b"
  by (simp add: pow2_powi power_int_add)

lemma pow2_nat [simp]: "pow2 (int n) = 2 ^ n"
  by (simp add: pow2_def)

lemma pow2_neg: "pow2 (- e) = 1 / pow2 e"
  by (simp add: pow2_powi power_int_minus inverse_eq_divide)

lemma pow2_mono: "a \<le> b \<Longrightarrow> pow2 a \<le> pow2 b"
  by (simp add: pow2_powi power_int_increasing)

lemma pow2_strict_mono: "a < b \<Longrightarrow> pow2 a < pow2 b"
  by (simp add: pow2_powi power_int_strict_increasing)

lemma pow2_le_iff: "pow2 a \<le> pow2 b \<longleftrightarrow> a \<le> b"
  using pow2_mono[of a b] pow2_strict_mono[of b a] by (auto simp: not_le[symmetric])

lemma pow2_less_iff: "pow2 a < pow2 b \<longleftrightarrow> a < b"
  using pow2_mono[of b a] pow2_strict_mono[of a b] by (auto simp: not_less[symmetric])

lemma bit_length_bounds:
  "0 < n \<Longrightarrow> 2 ^ (bit_length n - 1) \<le> n \<and> n < 2 ^ bit_length n"
proof (induction n rule: bit_length.induct)
  case (1 n)
  show ?case
  proof (cases "n div 2 = 0")
    case True
    then have "n = 1" using 1(2) by (cases n) auto
    then show ?thesis by (simp add: bit_length.simps[of "Suc 0"] bit_length.simps[of 0])
  next
    case False
    then have ih: "2 ^ (bit_length (n div 2) - 1) \<le> n div 2" "n div 2 < 2 ^ bit_length (n div 2)"
      using 1 by auto
    have pos: "0 < bit_length (n div 2)" using False by (simp add: bit_length.simps[of "n div 2"])
    have bl: "bit_length n = Suc (bit_length (n div 2))" using 1(2) by (simp add: bit_length.simps[of n])
    have "(2::nat) ^ (bit_length n - 1) = 2 * 2 ^ (bit_length (n div 2) - 1)"
      using pos bl by (cases "bit_length (n div 2)") simp_all
    then have lo: "2 ^ (bit_length n - 1) \<le> n" using ih(1) by linarith
    have hi: "n < 2 ^ bit_length n" using ih(2) bl by simp
    show ?thesis using lo hi by simp
  qed
qed

lemma floor_log2_bounds:
  assumes "0 < q"
  shows "pow2 (floor_log2 q) \<le> q \<and> q < pow2 (floor_log2 q + 1)"
proof (cases "1 \<le> q")
  case True
  let ?N = "nat \<lfloor>q\<rfloor>"
  have N: "0 < ?N" using True by simp
  have fl: "floor_log2 q = int (bit_length ?N) - 1" using True by (simp add: floor_log2_def)
  have blpos: "0 < bit_length ?N" using N by (simp add: bit_length.simps[of ?N])
  have e: "floor_log2 q = int (bit_length ?N - 1)" using fl blpos by simp
  have b: "2 ^ (bit_length ?N - 1) \<le> ?N" "?N < 2 ^ bit_length ?N"
    using bit_length_bounds[OF N] by simp_all
  have "(2::rat) ^ (bit_length ?N - 1) \<le> of_nat ?N"
    using b(1) by (metis of_nat_le_iff of_nat_numeral of_nat_power)
  also have "of_nat ?N \<le> q" using True by (simp add: of_nat_nat)
  finally have lo: "pow2 (floor_log2 q) \<le> q" unfolding e by simp
  have "q < of_int (\<lfloor>q\<rfloor> + 1)" by linarith
  also have "\<dots> = of_nat (?N + 1)" using True by simp
  also have "\<dots> \<le> (2::rat) ^ bit_length ?N"
    using b(2) by (metis Suc_eq_plus1 Suc_leI of_nat_le_iff of_nat_numeral of_nat_power)
  finally have "q < pow2 (int (bit_length ?N))" by simp
  then have hi: "q < pow2 (floor_log2 q + 1)" using fl by simp
  show ?thesis using lo hi by simp
next
  case False
  define c where "c = \<lceil>1 / q\<rceil>"
  define M where "M = nat (c - 1)"
  have r1: "1 < 1 / q" using assms False by simp
  then have c2: "2 \<le> c" unfolding c_def by (simp add: le_ceiling_iff)
  have M: "0 < M" using c2 by (simp add: M_def)
  have cM: "c = int (M + 1)" using c2 by (simp add: M_def)
  have fl: "floor_log2 q = - int (bit_length M)"
    using False by (simp add: floor_log2_def M_def c_def)
  have b: "2 ^ (bit_length M - 1) \<le> M" "M < 2 ^ bit_length M"
    using bit_length_bounds[OF M] by simp_all
  have blpos: "0 < bit_length M" using M by (simp add: bit_length.simps[of M])
  have "1 / q \<le> of_int c" unfolding c_def by simp
  also have "\<dots> = of_nat (M + 1)" unfolding cM by (rule of_int_of_nat_eq)
  also have "\<dots> \<le> (2::rat) ^ bit_length M"
    using b(2) by (metis Suc_eq_plus1 Suc_leI of_nat_le_iff of_nat_numeral of_nat_power)
  finally have "1 / q \<le> 2 ^ bit_length M" .
  then have "1 \<le> 2 ^ bit_length M * q" using assms by (simp add: field_simps)
  then have "1 / 2 ^ bit_length M \<le> q" by (simp add: field_simps)
  then have lo: "pow2 (floor_log2 q) \<le> q" unfolding fl by (simp add: pow2_neg)
  have "(2::rat) ^ (bit_length M - 1) \<le> of_nat M"
    using b(1) by (metis of_nat_le_iff of_nat_numeral of_nat_power)
  also have "of_nat M = (of_int (c - 1) :: rat)" unfolding cM by simp
  also have "\<dots> < 1 / q" unfolding c_def by linarith
  finally have "2 ^ (bit_length M - 1) * q < 1" using assms by (simp add: field_simps)
  then have "q < 1 / 2 ^ (bit_length M - 1)" by (simp add: field_simps)
  moreover have "floor_log2 q + 1 = - int (bit_length M - 1)" using fl blpos by simp
  ultimately have hi: "q < pow2 (floor_log2 q + 1)" by (simp add: pow2_neg)
  show ?thesis using lo hi by simp
qed

lemma floor_log2_unique:
  assumes "pow2 e \<le> q" "q < pow2 (e + 1)"
  shows "floor_log2 q = e"
proof -
  have q: "0 < q" using assms(1) pow2_pos[of e] by linarith
  have b: "pow2 (floor_log2 q) \<le> q" "q < pow2 (floor_log2 q + 1)"
    using floor_log2_bounds[OF q] by simp_all
  have "pow2 e < pow2 (floor_log2 q + 1)" using assms(1) b(2) by linarith
  then have 1: "e < floor_log2 q + 1" by (simp add: pow2_less_iff)
  have "pow2 (floor_log2 q) < pow2 (e + 1)" using assms(2) b(1) by linarith
  then have 2: "floor_log2 q < e + 1" by (simp add: pow2_less_iff)
  show ?thesis using 1 2 by simp
qed

lemma round_half_even_err: "\<bar>of_int (round_half_even x) - x\<bar> \<le> 1 / 2"
proof -
  have "of_int \<lfloor>x\<rfloor> \<le> x" "x < of_int \<lfloor>x\<rfloor> + 1" by linarith+
  then show ?thesis by (auto simp: round_half_even_def Let_def)
qed

lemma round_half_even_unique:
  assumes "\<bar>x - of_int k\<bar> < 1 / 2"
  shows "round_half_even x = k"
proof -
  have "\<bar>of_int (round_half_even x) - x\<bar> \<le> 1 / 2" by (rule round_half_even_err)
  then have "\<bar>(of_int (round_half_even x) :: rat) - of_int k\<bar> < 1" using assms by linarith
  then have "\<bar>(of_int (round_half_even x - k) :: rat)\<bar> < 1" by simp
  then have "\<bar>round_half_even x - k\<bar> < 1" by (metis of_int_abs of_int_less_1_iff)
  then show ?thesis by simp
qed

lemma round_half_even_of_int [simp]: "round_half_even (of_int k) = k"
  by (rule round_half_even_unique) simp

lemma round_half_even_numeral [simp]:
  "round_half_even 0 = 0" "round_half_even 1 = 1" "round_half_even (numeral w) = numeral w"
  using round_half_even_of_int[of 0] round_half_even_of_int[of 1]
    round_half_even_of_int[of "numeral w"] by simp_all

lemma round_half_even_nonneg: "0 \<le> x \<Longrightarrow> 0 \<le> round_half_even x"
  by (auto simp: round_half_even_def Let_def)

lemma ulp_pos [simp]: "0 < ulp q"
  by (simp add: ulp_def)

lemma ulp_nonneg [simp]: "0 \<le> ulp q"
  using ulp_pos[of q] by linarith

lemma ulp_neq0 [simp]: "ulp q \<noteq> 0"
  using ulp_pos[of q] by linarith

lemma round_double_zero [simp]: "round_double 0 = 0"
  by (simp add: round_double_def)

lemma round_double_nonneg: "0 \<le> q \<Longrightarrow> 0 \<le> round_double q"
  by (simp add: round_double_def round_half_even_nonneg)

lemma round_double_err:
  "\<bar>round_double q - q\<bar> \<le> ulp q / 2"
proof (cases "q = 0")
  case True then show ?thesis by simp
next
  case False
  have "\<bar>of_int (round_half_even (q / ulp q)) - q / ulp q\<bar> \<le> 1 / 2"
    by (rule round_half_even_err)
  then have "\<bar>of_int (round_half_even (q / ulp q)) - q / ulp q\<bar> * ulp q \<le> 1 / 2 * ulp q"
    by (intro mult_right_mono) simp_all
  moreover have "\<bar>of_int (round_half_even (q / ulp q)) - q / ulp q\<bar> * ulp q
      = \<bar>of_int (round_half_even (q / ulp q)) * ulp q - q\<bar>"
    using ulp_pos[of q] by (simp add: abs_mult[symmetric] field_simps del: ulp_pos) 
  ultimately show ?thesis using False by (simp add: round_double_def)
qed

lemma ulp_le:
  assumes "0 < q"
  shows "ulp q \<le> max (q / 2 ^ 52) (pow2 (- 1074))"
proof (cases "floor_log2 q - 52 \<le> - 1074")
  case True
  then show ?thesis by (simp add: ulp_def max_def)
next
  case False
  then have "ulp q = pow2 (floor_log2 q + (- 52))" by (simp add: ulp_def max_def)
  also have "\<dots> = pow2 (floor_log2 q) * pow2 (- 52)" by (rule pow2_add)
  also have "\<dots> \<le> q * pow2 (- 52)"
    using floor_log2_bounds[OF assms] by (intro mult_right_mono) simp_all
  also have "\<dots> = q / 2 ^ 52" by (simp add: pow2_def)
  finally show ?thesis by simp
qed

lemma round_double_exact:
  assumes "0 < n" "n < 2 ^ 53" "- 1074 \<le> k"
  shows "round_double (of_int n * pow2 k) = of_int n * pow2 k"
proof -
  define q :: rat where "q = of_int n * pow2 k"
  have q: "0 < q" using assms(1) by (simp add: q_def)
  have "(of_int n :: rat) < of_int (2 ^ 53)" using assms(2) by (simp only: of_int_less_iff)
  then have "(of_int n :: rat) < 2 ^ 53" by simp
  then have "q < 2 ^ 53 * pow2 k"
    unfolding q_def by (intro mult_strict_right_mono) simp_all
  also have "\<dots> = pow2 53 * pow2 k" by (simp add: pow2_def)
  also have "\<dots> = pow2 (53 + k)" by (rule pow2_add[symmetric])
  finally have "pow2 (floor_log2 q) < pow2 (53 + k)"
    using floor_log2_bounds[OF q] by linarith
  then have "floor_log2 q - 52 \<le> k" by (simp add: pow2_less_iff)
  then have le: "max (floor_log2 q - 52) (- 1074) \<le> k" using assms(3) by simp
  define d where "d = k - max (floor_log2 q - 52) (- 1074)"
  have d: "0 \<le> d" using le by (simp add: d_def)
  have "k = d + max (floor_log2 q - 52) (- 1074)" by (simp add: d_def)
  then have "pow2 k = pow2 d * pow2 (max (floor_log2 q - 52) (- 1074))"
    by (metis pow2_add)
  moreover have "pow2 d = 2 ^ nat d" using d by (simp add: pow2_def)
  ultimately have pk: "pow2 k = 2 ^ nat d * ulp q" by (simp add: ulp_def)
  have q2: "q = of_int n * (2 ^ nat d * ulp q)" using pk q_def by metis
  have "q / ulp q = of_int n * (2 ^ nat d * ulp q) / ulp q" using q2 by metis
  also have "\<dots> = of_int (n * 2 ^ nat d)" by simp
  finally have "round_half_even (q / ulp q) = n * 2 ^ nat d"
    by (simp only: round_half_even_of_int)
  then have "round_double q = of_int (n * 2 ^ nat d) * ulp q"
    using q by (simp add: round_double_def)
  also have "\<dots> = of_int n * (2 ^ nat d * ulp q)" by simp
  also have "\<dots> = q" using q2 by simp
  finally show ?thesis unfolding q_def .
qed

lemma round_double_of_int:
  assumes "0 \<le> n" "n < 2 ^ 53"
  shows "round_double (of_int n) = of_int n"
proof (cases "n = 0")
  case True then show ?thesis by simp
next
  case False
  then show ?thesis using assms round_double_exact[of n 0] by (simp add: pow2_def)
qed

lemma round_double_upper:
  assumes "0 \<le> q"
  shows "round_double q \<le> q + max (q / 2 ^ 53) (pow2 (- 1075))"
proof (cases "q = 0")
  case True then show ?thesis by simp
next
  case False
  then have q: "0 < q" using assms by simp
  have "round_double q \<le> q + ulp q / 2" using round_double_err[of q] by linarith
  also have "ulp q / 2 \<le> max (q / 2 ^ 52) (pow2 (- 1074)) / 2"
    using ulp_le[OF q] by simp
  also have "max (q / 2 ^ 52) (pow2 (- 1074)) / 2 = max (q / 2 ^ 53) (pow2 (- 1075))"
  proof -
    have "pow2 (- 1075) = pow2 (- 1074 + - 1)" by simp
    also have "\<dots> = pow2 (- 1074) / 2" unfolding pow2_add by (simp add: pow2_def)
    finally have a: "pow2 (- 1075) = pow2 (- 1074) / 2" .
    have b: "q / 2 ^ 53 = q / 2 ^ 52 / 2" by simp
    show ?thesis unfolding a b by (simp add: max_def field_simps)
  qed
  finally show ?thesis by simp
qed

lemma no_overflow:
  assumes "0 \<le> q" "q \<le> pow2 1022"
  shows "\<not> overflows (round_double q)"
proof -
  have "max (q / 2 ^ 53) (pow2 (- 1075)) \<le> pow2 1022"
  proof -
    have "q / 2 ^ 53 \<le> q" using assms(1) by (simp add: field_simps)
    moreover have "pow2 (- 1075) \<le> pow2 1022" by (rule pow2_mono) simp
    ultimately show ?thesis using assms(2) by simp
  qed
  then have "round_double q \<le> pow2 1022 + pow2 1022"
    using round_double_upper[OF assms(1)] assms(2) by linarith
  also have "\<dots> < pow2 1024"
  proof -
    have "pow2 1024 = pow2 (2 + 1022)" by simp
    also have "\<dots> = pow2 2 * pow2 1022" by (rule pow2_add)
    also have "pow2 2 = 4" by (simp add: pow2_def)
    finally show ?thesis using pow2_pos[of 1022] by simp
  qed
  finally show ?thesis by (simp add: overflows_def)
qed

section \<open>Properties of \<^verbatim>\<open>format_size\<close>\<close>

lemma int_truediv_finite:
  assumes "b \<noteq> 0" "\<bar>of_int a / of_int b :: rat\<bar> \<le> pow2 1022"
  shows "int_truediv a b = Inr (Finite ((a < 0) \<noteq> (b < 0)) (round_double \<bar>of_int a / of_int b\<bar>))"
  using assms no_overflow[of "\<bar>of_int a / of_int b\<bar>"] by (simp add: int_truediv_def)

lemma abs_below_pow:
  assumes "\<bar>n\<bar> < (2::int) ^ m"
  shows "\<bar>of_int n :: rat\<bar> < 2 ^ m"
proof -
  have "(of_int \<bar>n\<bar> :: rat) < of_int (2 ^ m)" using assms by (simp only: of_int_less_iff)
  then show ?thesis by simp
qed

lemma quotient_small:
  assumes "\<bar>n\<bar> < (2::int) ^ 1024" "(4::rat) \<le> d"
  shows "\<bar>of_int n / d :: rat\<bar> \<le> pow2 1022"
proof -
  have a: "\<bar>of_int n :: rat\<bar> < 2 ^ 1024" using assms(1) by (rule abs_below_pow)
  have "pow2 1024 = pow2 (2 + 1022)" by simp
  also have "\<dots> = pow2 2 * pow2 1022" by (rule pow2_add)
  also have "pow2 2 = 4" by (simp add: pow2_def)
  finally have p: "pow2 1024 = 4 * pow2 1022" .
  have "(2::rat) ^ 1024 = pow2 1024" by (simp add: pow2_def)
  then have "\<bar>of_int n :: rat\<bar> < 4 * pow2 1022" using a p by simp
  also have "\<dots> \<le> d * pow2 1022" using assms(2) by (intro mult_right_mono) simp_all
  finally have "\<bar>of_int n :: rat\<bar> / d \<le> pow2 1022" using assms(2) by (simp add: field_simps)
  moreover have "\<bar>d\<bar> = d" using assms(2) by simp
  ultimately show ?thesis by (simp add: abs_divide)
qed

lemma format_size_mb:
  assumes "n < 2 ^ 30" "\<bar>n\<bar> < 2 ^ 1024"
  shows "format_size n = Inr ((if n < 0 then ''-'' else [])
           @ fixed_digits 2 (shown_hundredths \<bar>of_int n / 2 ^ 20\<bar>) @ '' MB'')"
proof -
  have "\<bar>of_int n / of_int (1024 * 1024) :: rat\<bar> \<le> pow2 1022"
    using quotient_small[OF assms(2), of "of_int (1024 * 1024)"] by simp
  then have "int_truediv n (1024 * 1024) = Inr (Finite (n < 0)
       (round_double \<bar>of_int n / of_int (1024 * 1024)\<bar>))"
    using int_truediv_finite[of "1024 * 1024" n] by simp
  then show ?thesis using assms(1)
    by (simp add: format_size_def bytes_to_mb_def bind_def shown_hundredths_def)
qed

lemma format_size_gb:
  assumes "2 ^ 30 \<le> n" "n < 2 ^ 1024"
  shows "format_size n = Inr (fixed_digits 2 (shown_hundredths (of_int n / 2 ^ 30)) @ '' GB'')"
proof -
  have n: "0 \<le> n" "\<bar>n\<bar> < 2 ^ 1024" using assms by simp_all
  have "\<bar>of_int n / of_int (1024 * 1024 * 1024) :: rat\<bar> \<le> pow2 1022"
    using quotient_small[OF n(2), of "of_int (1024 * 1024 * 1024)"] by simp
  then have "int_truediv n (1024 * 1024 * 1024) = Inr (Finite False
       (round_double \<bar>of_int n / of_int (1024 * 1024 * 1024)\<bar>))"
    using int_truediv_finite[of "1024 * 1024 * 1024" n] n(1) by simp
  then show ?thesis using assms(1) n(1)
    by (simp add: format_size_def bytes_to_gb_def bind_def shown_hundredths_def)
qed

lemma decimal_roundtrip:
  assumes "0 \<le> k" "k < 2 ^ 52"
  shows "round_half_even (round_double (of_int k / 100) * 100) = k"
proof (cases "k = 0")
  case True then show ?thesis by simp
next
  case False
  define q :: rat where "q = of_int k / 100"
  have q: "0 < q" using False assms(1) by (simp add: q_def)
  have kb: "(of_int k :: rat) < 2 ^ 52"
    using assms abs_below_pow[of k 52] by simp
  have "\<bar>round_double q - q\<bar> \<le> ulp q / 2" by (rule round_double_err)
  also have "\<dots> \<le> max (q / 2 ^ 52) (pow2 (- 1074)) / 2" using ulp_le[OF q] by simp
  finally have e: "\<bar>round_double q - q\<bar> \<le> max (q / 2 ^ 52) (pow2 (- 1074)) / 2" .
  have "q / 2 ^ 52 < 1 / 100" using kb by (simp add: q_def)
  moreover have "pow2 (- 1074) < 1 / 100"
  proof -
    have "pow2 (- 1074) \<le> pow2 (- 7)" by (rule pow2_mono) simp
    also have "\<dots> < 1 / 100" by (simp add: pow2_def)
    finally show ?thesis .
  qed
  ultimately have "max (q / 2 ^ 52) (pow2 (- 1074)) / 2 < 1 / 200" by (simp add: max_def)
  then have "\<bar>round_double q - q\<bar> < 1 / 200" using e by linarith
  then have "\<bar>round_double q * 100 - of_int k\<bar> < 1 / 2" by (simp add: q_def abs_if split: if_splits)
  then show ?thesis unfolding q_def by (rule round_half_even_unique)
qed

lemma round_half_even_le:
  assumes "x \<le> of_int m"
  shows "round_half_even x \<le> m"
proof -
  have fm: "\<lfloor>x\<rfloor> \<le> m" using assms by (metis floor_mono floor_of_int)
  have r1: "round_half_even x \<le> \<lfloor>x\<rfloor> + 1" by (simp add: round_half_even_def Let_def)
  show ?thesis
  proof (cases "x = of_int \<lfloor>x\<rfloor>")
    case True
    then have "round_half_even x = \<lfloor>x\<rfloor>" by (metis round_half_even_of_int)
    then show ?thesis using fm by simp
  next
    case False
    have "of_int \<lfloor>x\<rfloor> < x" using False by (metis of_int_floor_le order_le_less)
    then have "(of_int \<lfloor>x\<rfloor> :: rat) < of_int m" using assms by linarith
    then have "\<lfloor>x\<rfloor> < m" by simp
    then show ?thesis using r1 by linarith
  qed
qed

lemma shown_hundredths_exact:
  assumes "0 \<le> n" "n < 2 ^ 53" "j \<le> 1074" "20 \<le> j"
  shows "shown_hundredths (of_int n / 2 ^ j) = nat (round_half_even (of_int n * 100 / 2 ^ j))"
proof -
  have x: "round_double (of_int n / 2 ^ j) = of_int n / 2 ^ j"
  proof (cases "n = 0")
    case True then show ?thesis by simp
  next
    case False
    have "pow2 (- int j) = 1 / 2 ^ j" by (simp add: pow2_def)
    then show ?thesis
      using round_double_exact[of n "- int j"] False assms by simp
  qed
  define k where "k = round_half_even (of_int n * 100 / 2 ^ j :: rat)"
  have k0: "0 \<le> k" unfolding k_def using assms(1) by (intro round_half_even_nonneg) simp
  have "\<bar>n\<bar> < 2 ^ 53" using assms by simp
  then have "\<bar>of_int n :: rat\<bar> < 2 ^ 53" by (rule abs_below_pow)
  then have "(of_int n :: rat) * 100 < 2 ^ 53 * 128" using assms(1) by simp
  also have "\<dots> = 2 ^ 40 * 2 ^ 20" by simp
  also have "\<dots> \<le> 2 ^ 40 * 2 ^ j" using assms(4) by (intro mult_left_mono power_increasing) simp_all
  finally have "(of_int n :: rat) * 100 / 2 ^ j \<le> of_int (2 ^ 40)" by (simp add: field_simps)
  then have "k \<le> 2 ^ 40" unfolding k_def by (rule round_half_even_le)
  then have k1: "k < 2 ^ 52" by simp
  have "shown_hundredths (of_int n / 2 ^ j)
      = nat (round_half_even (round_double (of_int k / 100) * 100))"
    by (simp add: shown_hundredths_def x k_def)
  also have "\<dots> = nat k" using decimal_roundtrip[OF k0 k1] by simp
  finally show ?thesis by (simp add: k_def)
qed

lemma fixed_digits_2:
  "fixed_digits 2 k = str_nat (k div 100) @ ''.'' @ [digit_char (k div 10 mod 10), digit_char (k mod 10)]"
  by (simp add: fixed_digits_def numeral_2_eq_2)

lemma str_nat_numeral:
  "str_nat (numeral k) = (if numeral k < (10::nat) then [digit_char (numeral k)]
     else str_nat (numeral k div 10) @ [digit_char (numeral k mod 10)])"
  "str_nat 0 = ''0''" "str_nat (Suc 0) = ''1''"
  by (simp_all add: str_nat.simps[of "numeral k"] str_nat.simps[of 0] str_nat.simps[of "Suc 0"]
      digit_char_def)

lemma format_size_examples:
  "format_size (500 * 1024 * 1024) = Inr ''500.00 MB''"
  "format_size (2 * 1024 * 1024 * 1024) = Inr ''2.00 GB''"
proof -
  have "format_size (500 * 1024 * 1024)
      = Inr (fixed_digits 2 (shown_hundredths (of_int (500 * 1024 * 1024) / 2 ^ 20)) @ '' MB'')"
    using format_size_mb[of "500 * 1024 * 1024"] by simp
  also have "shown_hundredths (of_int (500 * 1024 * 1024) / 2 ^ 20) = 50000"
    using shown_hundredths_exact[of "500 * 1024 * 1024" 20] by simp
  finally show "format_size (500 * 1024 * 1024) = Inr ''500.00 MB''"
    by (simp add: fixed_digits_2 str_nat_numeral digit_char_def)
  have "format_size (2 * 1024 * 1024 * 1024)
      = Inr (fixed_digits 2 (shown_hundredths (of_int (2 * 1024 * 1024 * 1024) / 2 ^ 30)) @ '' GB'')"
    using format_size_gb[of "2 * 1024 * 1024 * 1024"] by simp
  also have "shown_hundredths (of_int (2 * 1024 * 1024 * 1024) / 2 ^ 30) = 200"
    using shown_hundredths_exact[of "2 * 1024 * 1024 * 1024" 30] by simp
  finally show "format_size (2 * 1024 * 1024 * 1024) = Inr ''2.00 GB''"
    by (simp add: fixed_digits_2 str_nat_numeral digit_char_def)
qed

lemma int_truediv_huge:
  "int_truediv (2 ^ 1100) (1024 * 1024 * 1024) = Inl OverflowError"
  "int_truediv (- (2 ^ 1100)) (1024 * 1024) = Inl OverflowError"
proof -
  have a: "\<bar>of_int (2 ^ 1100) / of_int (1024 * 1024 * 1024) :: rat\<bar> = of_int 1 * pow2 1070"
    by (simp add: pow2_def)
  have b: "\<bar>of_int (- (2 ^ 1100)) / of_int (1024 * 1024) :: rat\<bar> = of_int 1 * pow2 1080"
    by (simp add: pow2_def)
  have "pow2 1024 \<le> pow2 1070" "pow2 1024 \<le> pow2 1080" by (rule pow2_mono, simp)+
  then have o: "overflows (round_double (of_int 1 * pow2 1070))"
    "overflows (round_double (of_int 1 * pow2 1080))"
    using round_double_exact[of 1 1070] round_double_exact[of 1 1080]
    by (simp_all add: overflows_def)
  show "int_truediv (2 ^ 1100) (1024 * 1024 * 1024) = Inl OverflowError"
    unfolding int_truediv_def a using o(1) by simp
  show "int_truediv (- (2 ^ 1100)) (1024 * 1024) = Inl OverflowError"
    unfolding int_truediv_def b using o(2) by simp
qed

text \<open>
  C7, as stated, fails: "for every byte count, format_size renders ...". Python's ints
  are unbounded and the division that converts to gigabytes yields a float: for a byte
  count of \<open>2^1100\<close> the quotient does not fit, and \<^verbatim>\<open>format_size\<close> raises
  \<^verbatim>\<open>OverflowError\<close> instead of rendering.
\<close>

theorem format_size_huge_counterexample:
  "format_size (2 ^ 1100) = Inl OverflowError"
proof -
  have "(1024 * 1024 * 1024 :: int) \<le> 2 ^ 1100" by simp
  then show ?thesis
    unfolding format_size_def bytes_to_gb_def int_truediv_huge bind_def
    by (simp only: if_True sum.case)
qed

text \<open>
  C7, amended: for every byte count below \<open>2^1024\<close>, \<^verbatim>\<open>format_size\<close> renders a
  value strictly below 1 GiB as "X.XX MB" and a value at or above 1 GiB as "X.XX GB",
  with exactly two decimal places in every case. The units are 1024-based: below
  \<open>2^53\<close> bytes the number shown is the byte count divided by \<open>2^20\<close> (or
  \<open>2^30\<close>), rounded to hundredths, ties to even. In particular
  \<^verbatim>\<open>format_size(500*1024*1024)\<close> is "500.00 MB" and
  \<^verbatim>\<open>format_size(2*1024*1024*1024)\<close> is "2.00 GB".
\<close>

theorem format_size_units:
  assumes "0 \<le> n" and "n < 2 ^ 1024"
  shows "(n < 2 ^ 30 \<longrightarrow> format_size n
            = Inr (fixed_digits 2 (shown_hundredths (of_int n / 2 ^ 20)) @ '' MB''))
     \<and> (2 ^ 30 \<le> n \<longrightarrow> format_size n
            = Inr (fixed_digits 2 (shown_hundredths (of_int n / 2 ^ 30)) @ '' GB''))
     \<and> (n < 2 ^ 53 \<longrightarrow>
            shown_hundredths (of_int n / 2 ^ 20) = nat (round_half_even (of_int n * 100 / 2 ^ 20))
          \<and> shown_hundredths (of_int n / 2 ^ 30) = nat (round_half_even (of_int n * 100 / 2 ^ 30)))
     \<and> fixed_digits 2 k
           = str_nat (k div 100) @ ''.'' @ [digit_char (k div 10 mod 10), digit_char (k mod 10)]
     \<and> format_size (500 * 1024 * 1024) = Inr ''500.00 MB''
     \<and> format_size (2 * 1024 * 1024 * 1024) = Inr ''2.00 GB''"
proof -
  have a: "\<bar>n\<bar> < 2 ^ 1024" "\<not> n < 0" "\<bar>of_int n / 2 ^ 20 :: rat\<bar> = of_int n / 2 ^ 20"
    using assms by simp_all
  have mb: "format_size n = Inr (fixed_digits 2 (shown_hundredths (of_int n / 2 ^ 20)) @ '' MB'')"
    if "n < 2 ^ 30"
    using format_size_mb[OF that a(1)] a(2,3) by simp
  have gb: "format_size n = Inr (fixed_digits 2 (shown_hundredths (of_int n / 2 ^ 30)) @ '' GB'')"
    if "2 ^ 30 \<le> n"
    using format_size_gb[OF that assms(2)] .
  have ex: "shown_hundredths (of_int n / 2 ^ 20) = nat (round_half_even (of_int n * 100 / 2 ^ 20))
          \<and> shown_hundredths (of_int n / 2 ^ 30) = nat (round_half_even (of_int n * 100 / 2 ^ 30))"
    if "n < 2 ^ 53"
    using shown_hundredths_exact[OF assms(1) that, of 20]
      shown_hundredths_exact[OF assms(1) that, of 30] by simp
  show ?thesis using mb gb ex fixed_digits_2[of k] format_size_examples by blast
qed

theorem format_size_units_witness:
  "(0::int) \<le> 1234567 \<and> (1234567::int) < 2 ^ 1024 \<and> (1234567::int) < 2 ^ 30
   \<and> (1234567::int) < 2 ^ 53 \<and> format_size 1234567 = Inr ''1.18 MB''"
proof -
  have h: "(0::int) \<le> 1234567" "(1234567::int) < 2 ^ 1024" by simp_all
  show ?thesis
    using format_size_units[OF h, of 0]
    by (simp add: fixed_digits_2 str_nat_numeral digit_char_def round_half_even_def Let_def
        floor_rat_numeral)
qed

text \<open>
  C10, as stated, fails: "format_size is total over all integers including negative
  ones". For the negative integer \<open>-2^1100\<close> the branch for megabytes is taken and its
  division raises \<^verbatim>\<open>OverflowError\<close>: no string is returned.
\<close>

theorem format_size_negative_huge_counterexample:
  "format_size (- (2 ^ 1100)) = Inl OverflowError"
proof -
  have "\<not> (1024 * 1024 * 1024 :: int) \<le> - (2 ^ 1100)" by simp
  then show ?thesis
    unfolding format_size_def bytes_to_mb_def int_truediv_huge bind_def
    by (simp only: if_False sum.case)
qed

text \<open>
  C10, amended: \<^verbatim>\<open>format_size\<close> returns a string for every integer of magnitude
  below \<open>2^1024\<close>, negative ones included. For every negative byte count \<open>n\<close> in
  that range the branch for 1 GiB and more is not taken and the result is the negative
  megabyte string "-X.XX MB", the minus sign also in front of "0.00"; X.XX is the
  magnitude in units of \<open>2^20\<close> bytes rounded to hundredths (ties to even) when
  \<open>n > -2^53\<close>. The value is neither clamped to zero nor rejected.
\<close>

theorem format_size_negative:
  assumes "n < 0" and "- (2 ^ 1024) < n"
  shows "format_size n
           = Inr (''-'' @ fixed_digits 2 (shown_hundredths (of_int (- n) / 2 ^ 20)) @ '' MB'')
     \<and> (- (2 ^ 53) < n \<longrightarrow>
            shown_hundredths (of_int (- n) / 2 ^ 20)
              = nat (round_half_even (of_int (- n) * 100 / 2 ^ 20)))
     \<and> fixed_digits 2 k
           = str_nat (k div 100) @ ''.'' @ [digit_char (k div 10 mod 10), digit_char (k mod 10)]"
proof -
  have a: "n < 2 ^ 30" "\<bar>n\<bar> < 2 ^ 1024" using assms by simp_all
  have b: "\<bar>of_int n / 2 ^ 20 :: rat\<bar> = of_int (- n) / 2 ^ 20" using assms(1) by simp
  have 1: "format_size n
           = Inr (''-'' @ fixed_digits 2 (shown_hundredths (of_int (- n) / 2 ^ 20)) @ '' MB'')"
    using format_size_mb[OF a] assms(1) unfolding b by simp
  have 2: "shown_hundredths (of_int (- n) / 2 ^ 20)
              = nat (round_half_even (of_int (- n) * 100 / 2 ^ 20))" if "- (2 ^ 53) < n"
    using shown_hundredths_exact[of "- n" 20] assms(1) that by simp
  show ?thesis using 1 2 fixed_digits_2[of k] by blast
qed

theorem format_size_negative_witness:
  "(- 1 :: int) < 0 \<and> - (2 ^ 1024) < (- 1 :: int) \<and> - (2 ^ 53) < (- 1 :: int)
   \<and> format_size (- 1) = Inr ''-0.00 MB''
   \<and> format_size (- 123456789) = Inr ''-117.74 MB''"
proof -
  have h: "(- 1 :: int) < 0" "- (2 ^ 1024) < (- 1 :: int)" by simp_all
  have g: "(- 123456789 :: int) < 0" "- (2 ^ 1024) < (- 123456789 :: int)" by simp_all
  show ?thesis
    using format_size_negative[OF h, of 0] format_size_negative[OF g, of 0]
    by (simp add: fixed_digits_2 str_nat_numeral digit_char_def round_half_even_def Let_def
        floor_rat_numeral)
qed

section \<open>Properties of \<^verbatim>\<open>create_progress_bar\<close>\<close>

lemma round_double_abs_err:
  assumes "0 \<le> q"
  shows "\<bar>round_double q - q\<bar> \<le> max (q / 2 ^ 53) (pow2 (- 1075))"
proof (cases "q = 0")
  case True then show ?thesis by simp
next
  case False
  then have q: "0 < q" using assms by simp
  have "\<bar>round_double q - q\<bar> \<le> ulp q / 2" by (rule round_double_err)
  also have "ulp q / 2 \<le> max (q / 2 ^ 52) (pow2 (- 1074)) / 2"
    using ulp_le[OF q] by simp
  also have "max (q / 2 ^ 52) (pow2 (- 1074)) / 2 = max (q / 2 ^ 53) (pow2 (- 1075))"
  proof -
    have "pow2 (- 1075) = pow2 (- 1074 + - 1)" by simp
    also have "\<dots> = pow2 (- 1074) / 2" unfolding pow2_add by (simp add: pow2_def)
    finally have a: "pow2 (- 1075) = pow2 (- 1074) / 2" .
    have b: "q / 2 ^ 53 = q / 2 ^ 52 / 2" by simp
    show ?thesis unfolding a b by (simp add: max_def field_simps)
  qed
  finally show ?thesis .
qed

lemma pow2_tiny: "pow2 (- 1075) < 1 / 100"
proof -
  have "pow2 (- 1075) \<le> pow2 (- 7)" by (rule pow2_mono) simp
  also have "\<dots> < 1 / 100" by (simp add: pow2_def)
  finally show ?thesis .
qed

lemma moderate_no_overflow:
  assumes "0 \<le> q" "q \<le> 2 ^ 60"
  shows "\<not> overflows (round_double q)"
proof -
  have "(2::rat) ^ 60 = pow2 60" by (simp add: pow2_def)
  also have "\<dots> \<le> pow2 1022" by (rule pow2_mono) simp
  finally show ?thesis using assms no_overflow[of q] by simp
qed

lemma float_of_int_small:
  assumes "0 \<le> w" "w < 2 ^ 53"
  shows "float_of_int w = Inr (Finite False (of_int w))"
proof -
  have "\<bar>w\<bar> < 2 ^ 53" using assms by simp
  then have "\<bar>of_int w :: rat\<bar> < 2 ^ 53" by (rule abs_below_pow)
  then have b: "(of_int w :: rat) \<le> 2 ^ 60" using assms(1) by simp
  have r: "round_double (of_int w) = of_int w" using assms by (rule round_double_of_int)
  have "\<not> overflows (round_double (of_int w))"
    using moderate_no_overflow[of "of_int w"] b assms(1) by simp
  then show ?thesis using assms(1) r by (simp add: float_of_int_def)
qed

lemma floor_round_double_div_100:
  assumes "0 \<le> K" "K < 2 ^ 53"
  shows "\<lfloor>round_double (of_int K / 100)\<rfloor> = K div 100"
proof (cases "K mod 100 = 0")
  case True
  have "100 * (K div 100) + K mod 100 = K" by (rule mult_div_mod_eq)
  then have K: "K = (K div 100) * 100" using True by simp
  have "(of_int K :: rat) = of_int ((K div 100) * 100)" using K by simp
  then have "(of_int K :: rat) / 100 = of_int (K div 100)" by simp
  moreover have "0 \<le> K div 100" using assms(1) by simp
  moreover have "K div 100 \<le> K div 1" using assms(1) by (intro zdiv_mono2) simp_all
  then have "K div 100 < 2 ^ 53" using assms(2) by simp
  ultimately show ?thesis using round_double_of_int[of "K div 100"] by simp
next
  case False
  define m where "m = K div 100"
  define r where "r = K mod 100"
  define q :: rat where "q = of_int K / 100"
  have "100 * (K div 100) + K mod 100 = K" by (rule mult_div_mod_eq)
  then have K: "K = 100 * m + r" by (simp add: m_def r_def)
  have "0 \<le> r" "r < 100" by (simp_all add: r_def)
  then have r: "1 \<le> r" "r \<le> 99" using False by (simp_all add: r_def)
  have "(of_int K :: rat) = of_int (100 * m + r)" using K by simp
  then have q: "q = of_int m + of_int r / 100" by (simp add: q_def)
  have "(of_int r :: rat) \<ge> of_int 1" "(of_int r :: rat) \<le> of_int 99"
    using r by (simp_all only: of_int_le_iff)
  then have rb: "1 / 100 \<le> (of_int r :: rat) / 100" "(of_int r :: rat) / 100 \<le> 99 / 100"
    by simp_all
  have qlo: "of_int m + 1 / 100 \<le> q" and qhi: "q \<le> of_int m + 99 / 100"
    using rb unfolding q by linarith+
  have K0: "0 \<le> (of_int K :: rat)" using assms(1) by simp
  then have q0: "0 \<le> q" by (simp add: q_def)
  have "\<bar>K\<bar> < 2 ^ 53" using assms by simp
  then have "\<bar>of_int K :: rat\<bar> < 2 ^ 53" by (rule abs_below_pow)
  then have "(of_int K :: rat) < 2 ^ 53" using K0 by linarith
  then have "q / 2 ^ 53 < 1 / 100" by (simp add: q_def)
  then have "max (q / 2 ^ 53) (pow2 (- 1075)) < 1 / 100" using pow2_tiny by simp
  then have e: "\<bar>round_double q - q\<bar> < 1 / 100" using round_double_abs_err[OF q0] by linarith
  have lo: "of_int m \<le> round_double q" using e qlo by linarith
  have hi: "round_double q < of_int m + 1" using e qhi by linarith
  have "\<lfloor>round_double q\<rfloor> = m" using lo hi by (rule floor_unique)
  then show ?thesis by (simp add: q_def m_def)
qed

lemma product_bound:
  fixes w i :: int
  assumes "0 \<le> w" "w < 2 ^ 46" "0 \<le> i" "i \<le> 100"
  shows "0 \<le> w * i" "w * i < 2 ^ 53" "w * i div 100 \<le> w"
proof -
  show "0 \<le> w * i" using assms by simp
  have "w * i \<le> w * 100" using assms by (intro mult_left_mono) simp_all
  also have "\<dots> < 2 ^ 46 * 100" using assms(2) by simp
  also have "\<dots> \<le> (2::int) ^ 53" by simp
  finally show "w * i < 2 ^ 53" .
  have "w * i div 100 \<le> w * 100 div 100"
    using \<open>w * i \<le> w * 100\<close> by (rule zdiv_mono1) simp
  then show "w * i div 100 \<le> w" by simp
qed

lemma filled_width_int:
  assumes "0 \<le> w" "w < 2 ^ 46" "0 \<le> i" "i \<le> 100"
  shows "filled_width (PyInt i) w = Inr (w * i div 100)"
    and "\<lfloor>bar_quotient (PyInt i) w\<rfloor> = w * i div 100"
proof -
  note p = product_bound[OF assms]
  define K where "K = w * i"
  have K: "0 \<le> K" "K < 2 ^ 53" using p by (simp_all add: K_def)
  then have "\<bar>K\<bar> < 2 ^ 53" by simp
  then have "\<bar>of_int K :: rat\<bar> < 2 ^ 53" by (rule abs_below_pow)
  moreover have "0 \<le> (of_int K :: rat)" using K(1) by simp
  ultimately have "0 \<le> (of_int K :: rat) / 100" "(of_int K :: rat) / 100 \<le> 2 ^ 60"
    by simp_all
  then have q: "0 \<le> (of_int (w * i) :: rat) / 100" "(of_int (w * i) :: rat) / 100 \<le> 2 ^ 60"
    unfolding K_def .
  have a: "\<bar>of_int (w * i) / 100 :: rat\<bar> = of_int (w * i) / 100" using q(1) by simp
  have "\<not> overflows (round_double (of_int (w * i) / 100))"
    using moderate_no_overflow[OF q] .
  then have "int_truediv (w * i) 100 = Inr (Finite False (round_double (of_int (w * i) / 100)))"
    using p(1) a by (simp add: int_truediv_def)
  then show "filled_width (PyInt i) w = Inr (w * i div 100)"
    using floor_round_double_div_100[OF p(1,2)] by (simp add: filled_width_def bind_def)
  show "\<lfloor>bar_quotient (PyInt i) w\<rfloor> = w * i div 100"
    using floor_round_double_div_100[OF p(1,2)] by simp
qed

lemma filled_width_float:
  assumes "0 \<le> w" "w < 2 ^ 46" "0 \<le> m" "m \<le> 100" "s \<longrightarrow> m = 0"
  shows "filled_width (PyFloat (Finite s m)) w = Inr \<lfloor>bar_quotient (PyFloat (Finite s m)) w\<rfloor>"
    and "0 \<le> \<lfloor>bar_quotient (PyFloat (Finite s m)) w\<rfloor>"
    and "\<lfloor>bar_quotient (PyFloat (Finite s m)) w\<rfloor> \<le> w"
proof -
  define A :: rat where "A = of_int w * m"
  define y where "y = round_double A"
  define x where "x = round_double (y / 100)"
  have w53: "w < 2 ^ 53" using assms(2) by (rule less_le_trans) simp
  have fw: "float_of_int w = Inr (Finite False (of_int w))"
    using float_of_int_small[OF assms(1) w53] .
  have rw: "round_double (of_int w) = of_int w" using assms(1) w53 by (rule round_double_of_int)
  have "\<bar>w\<bar> < 2 ^ 46" using assms by simp
  then have "\<bar>of_int w :: rat\<bar> < 2 ^ 46" by (rule abs_below_pow)
  then have wr: "0 \<le> (of_int w :: rat)" "(of_int w :: rat) < 2 ^ 46" using assms(1) by simp_all
  have A0: "0 \<le> A" using wr(1) assms(3) by (simp add: A_def)
  have "A \<le> of_int w * 100" unfolding A_def using wr(1) assms(4) by (intro mult_left_mono)
  then have Ab: "A \<le> of_int w * 100" "A < 2 ^ 53" using wr(2) by simp_all
  have "A / 2 ^ 53 < 1" using Ab(2) by simp
  then have "max (A / 2 ^ 53) (pow2 (- 1075)) < 1" using pow2_tiny by simp
  then have ye: "\<bar>y - A\<bar> < 1" unfolding y_def using round_double_abs_err[OF A0] by linarith
  have y0: "0 \<le> y" unfolding y_def using A0 by (rule round_double_nonneg)
  have yb: "y \<le> of_int w * 100 + 1" using ye Ab(1) by linarith
  then have y60: "y \<le> 2 ^ 60" using wr(2) by simp
  have q0: "0 \<le> y / 100" using y0 by simp
  have qb: "y / 100 \<le> of_int w + 1 / 100" using yb by simp
  then have "y / 100 / 2 ^ 53 < 1 / 2" using wr(2) by simp
  then have "max (y / 100 / 2 ^ 53) (pow2 (- 1075)) < 1 / 2" using pow2_tiny by simp
  then have xe: "\<bar>x - y / 100\<bar> < 1 / 2"
    unfolding x_def using round_double_abs_err[OF q0] by linarith
  have x0: "0 \<le> x" unfolding x_def using q0 by (rule round_double_nonneg)
  have xb: "x < of_int w + 1" using xe qb by linarith
  have no1: "\<not> overflows (round_double A)"
    using moderate_no_overflow[OF A0] Ab(2) by simp
  have no2: "\<not> overflows (round_double (y / 100))"
    using moderate_no_overflow[OF q0] y60 y0 by simp
  have bq: "bar_quotient (PyFloat (Finite s m)) w = x"
    by (simp add: rw x_def y_def A_def)
  show f0: "0 \<le> \<lfloor>bar_quotient (PyFloat (Finite s m)) w\<rfloor>" unfolding bq using x0 by simp
  show "\<lfloor>bar_quotient (PyFloat (Finite s m)) w\<rfloor> \<le> w"
    unfolding bq using xb by (simp add: floor_le_iff)
  have mul: "float_mul (Finite False (of_int w)) (Finite s m) = Finite s y"
    using no1 by (simp add: y_def A_def)
  have dv: "float_truediv (Finite s y) (Finite False 100) = Inr (Finite s x)"
    using no2 by (simp add: x_def)
  have fl: "filled_width (PyFloat (Finite s m)) w = Inr (if s then - \<lfloor>x\<rfloor> else \<lfloor>x\<rfloor>)"
    by (simp add: filled_width_def bind_def fw mul float_of_int_100 dv
        del: float_mul.simps float_truediv.simps)
  show "filled_width (PyFloat (Finite s m)) w = Inr \<lfloor>bar_quotient (PyFloat (Finite s m)) w\<rfloor>"
  proof (cases s)
    case False then show ?thesis unfolding fl bq by simp
  next
    case True
    then have "m = 0" using assms(5) by simp
    then have "x = 0" by (simp add: x_def y_def A_def)
    then show ?thesis unfolding fl bq by simp
  qed
qed

lemma filled_width_in_range:
  assumes "0 \<le> w" "w < 2 ^ 46" "in_percent_range p"
  shows "filled_width p w = Inr \<lfloor>bar_quotient p w\<rfloor>
     \<and> 0 \<le> \<lfloor>bar_quotient p w\<rfloor> \<and> \<lfloor>bar_quotient p w\<rfloor> \<le> w"
proof (cases p)
  case (PyInt i)
  then have i: "0 \<le> i" "i \<le> 100" using assms(3) by simp_all
  show ?thesis
    using filled_width_int[OF assms(1,2) i] product_bound[OF assms(1,2) i] PyInt
    by (simp del: bar_quotient.simps)
next
  case (PyFloat x)
  show ?thesis
  proof (cases x)
    case (Finite s m)
    then have "0 \<le> m" "m \<le> 100" "s \<longrightarrow> m = 0" using assms(3) PyFloat by simp_all
    then show ?thesis
      using filled_width_float[OF assms(1,2), of m s] PyFloat Finite
      by (simp del: bar_quotient.simps)
  next
    case (Infinity s) then show ?thesis using assms(3) PyFloat by simp
  next
    case NaN then show ?thesis using assms(3) PyFloat by simp
  qed
qed

lemma format_f_num_in_range:
  assumes "in_percent_range p"
  shows "format_f_num 1 p = Inr (percent_text p)"
proof (cases p)
  case (PyInt i)
  then have i: "0 \<le> i" "i \<le> 100" using assms by simp_all
  have "(of_int i :: rat) \<le> of_int 100" using i(2) by (simp only: of_int_le_iff)
  then have "\<bar>of_int i :: rat\<bar> \<le> 2 ^ 60" using i(1) by simp
  then have "\<not> overflows (round_double \<bar>of_int i\<bar>)"
    by (intro moderate_no_overflow) simp_all
  then show ?thesis using PyInt by (simp add: bind_def float_of_int_def)
next
  case (PyFloat x) then show ?thesis by simp
qed

lemma create_progress_bar_in_range:
  assumes "0 \<le> w" "w < 2 ^ 46" "in_percent_range p"
  shows "create_progress_bar p w filled_char empty_char =
     Inr (''['' @ bar_color p
          @ concat (replicate (nat \<lfloor>bar_quotient p w\<rfloor>) filled_char) @ DIM
          @ concat (replicate (nat (w - \<lfloor>bar_quotient p w\<rfloor>)) empty_char) @ RESET
          @ ''] '' @ percent_text p @ ''%'')"
  using filled_width_in_range[OF assms] format_f_num_in_range[OF assms(3)]
  by (simp add: create_progress_bar_def bind_def str_times_def Let_def)

lemma replicate_numeral_char:
  "replicate (numeral k) (c::char) = c # replicate (pred_numeral k) c"
  by (simp add: numeral_eq_Suc)

lemma int_truediv_huge_width: "int_truediv (2 ^ 1100 * 50) 100 = Inl OverflowError"
proof -
  have a: "\<bar>of_int (2 ^ 1100 * 50) / of_int 100 :: rat\<bar> = of_int 1 * pow2 1099"
    by (simp add: pow2_def)
  have "pow2 1024 \<le> pow2 1099" by (rule pow2_mono) simp
  then have o: "overflows (round_double (of_int 1 * pow2 1099))"
    using round_double_exact[of 1 1099] by (simp add: overflows_def)
  show ?thesis unfolding int_truediv_def a using o by simp
qed

lemma filled_width_huge: "filled_width (PyInt 50) (2 ^ 1100) = Inl OverflowError"
  by (simp only: filled_width_def int_times.simps num_truediv_int.simps bind_def sum.case
      int_truediv_huge_width)

lemma create_progress_bar_huge:
  "create_progress_bar (PyInt 50) (2 ^ 1100) ''#'' ''.'' = Inl OverflowError"
  by (simp only: create_progress_bar_def filled_width_huge bind_def sum.case)

text \<open>
  C8, as stated, fails: "for every percentage in [0, 100] and every width, the bar has a
  filled segment of exactly floor(width * percentage / 100) glyphs". The percentage
  that the summary computes for 7 freed bytes out of 30 is the float
  23.333333333333332; at the default width 30 the product is rounded to 700.0, the
  quotient is 7.0 and the bar has 7 filled glyphs, while the floor of
  \<open>30 * percentage / 100\<close> is 6. And not every width gives a bar: at the width
  \<open>2^1100\<close> the quotient does not fit a float and the call raises
  \<^verbatim>\<open>OverflowError\<close>.
\<close>

theorem progress_bar_float_counterexample:
  "percentage_of 7 30 = Inr (PyFloat (Finite False (6567749456581973 / 281474976710656)))
   \<and> in_percent_range (PyFloat (Finite False (6567749456581973 / 281474976710656)))
   \<and> \<lfloor>30 * (6567749456581973 / 281474976710656) / 100 :: rat\<rfloor> = 6
   \<and> filled_width (PyFloat (Finite False (6567749456581973 / 281474976710656))) 30 = Inr 7
   \<and> create_progress_bar (PyFloat (Finite False (6567749456581973 / 281474976710656))) 30
         ''#'' ''.''
       = Inr (''['' @ BRIGHT_GREEN @ ''#######'' @ DIM @ ''.......................'' @ RESET
              @ ''] 23.3%'')
   \<and> create_progress_bar (PyInt 50) (2 ^ 1100) ''#'' ''.'' = Inl OverflowError"
proof -
  have a1: "percentage_of 7 30
      = Inr (PyFloat (Finite False (6567749456581973 / 281474976710656)))"
    by (simp add: percentage_of_def bind_def fl_eval)
  have a2: "in_percent_range (PyFloat (Finite False (6567749456581973 / 281474976710656)))"
    by simp
  have a3: "\<lfloor>30 * (6567749456581973 / 281474976710656) / 100 :: rat\<rfloor> = 6"
    by (simp add: floor_rat_numeral)
  have a4: "filled_width (PyFloat (Finite False (6567749456581973 / 281474976710656))) 30
      = Inr 7"
    by (simp add: filled_width_def bind_def fl_eval)
  have a5: "create_progress_bar (PyFloat (Finite False (6567749456581973 / 281474976710656))) 30
         ''#'' ''.''
       = Inr (''['' @ BRIGHT_GREEN @ ''#######'' @ DIM @ ''.......................'' @ RESET
              @ ''] 23.3%'')"
    by (simp add: create_progress_bar_def a4 bind_def str_times_def bar_color_def
        fixed_digits_def str_nat_numeral digit_char_def round_half_even_def Let_def
        floor_rat_numeral replicate_numeral_char)
  show ?thesis by (intro conjI a1 a2 a3 a4 a5 create_progress_bar_huge)
qed

text \<open>
  C8, amended: for every percentage in [0, 100] and every width from 0 to below
  \<open>2^46\<close>, the bar has a filled segment of exactly \<open>floor(x)\<close> glyphs, where \<open>x\<close>
  is the float that \<^verbatim>\<open>width * percentage / 100\<close> evaluates to, every operation rounded
  to the nearest float; this number lies between 0 and the width, and the remaining
  width is filled with the empty glyph. For an int percentage \<open>x\<close> is near enough to
  the exact quotient: the filled segment has exactly
  \<open>floor(width * percentage / 100)\<close> glyphs. In particular at width 10, percentage 0
  gives zero filled glyphs, percentage 50 gives five, and percentage 100 gives ten.
\<close>

theorem progress_bar_filled_segment:
  assumes "0 \<le> width" and "width < 2 ^ 46" and "in_percent_range percentage"
  shows "create_progress_bar percentage width filled_char empty_char =
       Inr (''['' @ bar_color percentage
            @ concat (replicate (nat \<lfloor>bar_quotient percentage width\<rfloor>) filled_char) @ DIM
            @ concat (replicate (nat (width - \<lfloor>bar_quotient percentage width\<rfloor>)) empty_char)
            @ RESET @ ''] '' @ percent_text percentage @ ''%'')
     \<and> filled_width percentage width = Inr \<lfloor>bar_quotient percentage width\<rfloor>
     \<and> 0 \<le> \<lfloor>bar_quotient percentage width\<rfloor>
     \<and> \<lfloor>bar_quotient percentage width\<rfloor> \<le> width
     \<and> (\<forall>i. percentage = PyInt i \<longrightarrow>
           \<lfloor>bar_quotient percentage width\<rfloor> = \<lfloor>of_int width * of_int i / 100 :: rat\<rfloor>)
     \<and> filled_width (PyInt 0) 10 = Inr 0
     \<and> filled_width (PyInt 50) 10 = Inr 5
     \<and> filled_width (PyInt 100) 10 = Inr 10"
proof -
  have ex: "\<lfloor>bar_quotient percentage width\<rfloor> = \<lfloor>of_int width * of_int i / 100 :: rat\<rfloor>"
    if "percentage = PyInt i" for i
  proof -
    have i: "0 \<le> i" "i \<le> 100" using assms(3) that by simp_all
    have "\<lfloor>of_int (width * i) / of_int 100 :: rat\<rfloor> = width * i div 100"
      by (rule floor_divide_of_int_eq)
    then have "\<lfloor>of_int width * of_int i / 100 :: rat\<rfloor> = width * i div 100" by simp
    then show ?thesis using filled_width_int(2)[OF assms(1,2) i] that by simp
  qed
  have e0: "filled_width (PyInt 0) 10 = Inr 0"
    using filled_width_int(1)[of 10 0] by simp
  have e50: "filled_width (PyInt 50) 10 = Inr 5"
    using filled_width_int(1)[of 10 50] by simp
  have e100: "filled_width (PyInt 100) 10 = Inr 10"
    using filled_width_int(1)[of 10 100] by simp
  show ?thesis
    using create_progress_bar_in_range[OF assms, of filled_char empty_char]
      filled_width_in_range[OF assms] ex e0 e50 e100
    by blast
qed

theorem progress_bar_filled_segment_witness:
  "(0::int) \<le> 10 \<and> (10::int) < 2 ^ 46 \<and> in_percent_range (PyFloat (Finite False 50))
   \<and> create_progress_bar (PyFloat (Finite False 50)) 10 ''#'' ''.''
       = Inr (''['' @ BRIGHT_YELLOW @ ''#####'' @ DIM @ ''.....'' @ RESET @ ''] 50.0%'')
   \<and> in_percent_range (PyInt 100)
   \<and> create_progress_bar (PyInt 100) 10 ''#'' ''.''
       = Inr (''['' @ BRIGHT_RED @ ''##########'' @ DIM @ RESET @ ''] 100.0%'')"
proof -
  have h: "(0::int) \<le> 10" "(10::int) < 2 ^ 46" by simp_all
  have p: "in_percent_range (PyFloat (Finite False 50))" "in_percent_range (PyInt 100)"
    by simp_all
  show ?thesis
    using h p progress_bar_filled_segment[OF h p(1), of "''#''" "''.''"]
      progress_bar_filled_segment[OF h p(2), of "''#''" "''.''"]
    by (simp add: bar_color_def fixed_digits_def str_nat_numeral digit_char_def fl_eval
        replicate_numeral_char)
qed

end
